theory Spec2Isabelle
  imports Main "HOL-Library.Word" "HOL-Library.Multiset" "HOL-Library.Sublist"
begin

unbundle bit_operations_syntax

section \<open>Data model of \<^verbatim>\<open>dive_core/command_hierarchy.cpp\<close>\<close>

text \<open>
  Node indices, sizes and counts are \<^verbatim>\<open>uint64_t\<close>/\<^verbatim>\<open>size_t\<close> in the source and are
  modelled as \<open>nat\<close>; the sentinel \<^verbatim>\<open>UINT64_MAX\<close> is the number \<open>2^64 - 1\<close>.
  Packed fields of the aux payload are machine words of the field's width.
  A failed \<^verbatim>\<open>DIVE_ASSERT\<close>/\<^verbatim>\<open>DIVE_VERIFY\<close> is the error \<open>AssertionFailure\<close>; an access
  outside a vector that the source does not guard (\<^verbatim>\<open>back()\<close>, \<^verbatim>\<open>pop_back()\<close> or
  \<^verbatim>\<open>operator[]\<close>) is the error \<open>OutOfBounds\<close>; an aux payload read through a union member
  other than the one it was written through is \<open>LayoutDependent\<close>.
\<close>

datatype error = AssertionFailure | OutOfBounds | LayoutDependent | DecodeFailure

definition UINT64_MAX :: nat where
  "UINT64_MAX = 2 ^ 64 - 1"

definition kRootNodeIndex :: nat where
  "kRootNodeIndex = 0"

datatype NodeType =
    kRootNode | kEngineNode | kSubmitNode | kIbNode | kMarkerNode | kDrawDispatchDmaNode
  | kSyncNode | kPacketNode | kRegNode | kFieldNode | kPostambleStateNode | kPresentNode

datatype IbType = kNormal | kCall | kChain

text \<open>
  Modelled from the spec: the enumerations and the \<^verbatim>\<open>AuxInfo\<close> union are declared in
  \<^verbatim>\<open>command_hierarchy.h\<close>, which is not among the sources. The spec lists the marker kinds
  BeginEnd, DiveMetadata, Barrier "and others" (\<open>kOtherMarker\<close>), the engine types Universal,
  Compute, Dma "and others" in that order, and the fields of each aux layout; the Ib layout
  holds the ib type, an ib index of at most 8 bits, a 32-bit size and a one-bit flag.
\<close>

datatype MarkerType = kBeginEnd | kDiveMetadata | kBarrier | kOtherMarker

datatype SyncType = kNone | kOtherSync nat

type_synonym EngineType = nat

definition kUniversal :: EngineType where "kUniversal = 0"
definition kCompute :: EngineType where "kCompute = 1"
definition kDma :: EngineType where "kDma = 2"

datatype AuxInfo =
    AuxRaw "64 word"
  | SubmitNodeAux EngineType "32 word"
  | IbNodeAux "8 word" "8 word" "32 word" "1 word"
  | PacketNodeAux "48 word" "8 word" bool
  | RegFieldNodeAux bool
  | EventNodeAux "32 word"
  | MarkerNodeAux MarkerType "32 word"

text \<open>The casts \<^verbatim>\<open>(uint8_t)ib_type\<close> and \<^verbatim>\<open>(IbType)m_ib_type\<close>; a byte that is no
  enumerator converts to no named \<open>IbType\<close>.\<close>

fun IbType_to_u8 :: "IbType \<Rightarrow> 8 word" where
  "IbType_to_u8 kNormal = 0"
| "IbType_to_u8 kCall = 1"
| "IbType_to_u8 kChain = 2"

definition IbType_of_u8 :: "8 word \<Rightarrow> IbType option" where
  "IbType_of_u8 b =
     (if b = 0 then Some kNormal else if b = 1 then Some kCall
      else if b = 2 then Some kChain else None)"

subsection \<open>The node store (\<^verbatim>\<open>CommandHierarchy::Nodes\<close>)\<close>

record Nodes =
  m_node_type :: "NodeType list"
  m_description :: "string list"
  m_aux_info :: "AuxInfo list"
  m_metadata :: "8 word list list"
  m_event_node_indices :: "nat list"

definition empty_Nodes :: Nodes where
  "empty_Nodes = \<lparr>m_node_type = [], m_description = [], m_aux_info = [], m_metadata = [],
     m_event_node_indices = []\<rparr>"

text \<open>\<^verbatim>\<open>Nodes::AddNode\<close>: the three assertions, four \<^verbatim>\<open>push_back\<close>s, and the index of the
  new node. The metadata is \<open>metadata_size\<close> zero bytes, overwritten from the pointer when it
  is not null.\<close>

definition Nodes_AddNode ::
  "Nodes \<Rightarrow> NodeType \<Rightarrow> string \<Rightarrow> AuxInfo \<Rightarrow> 8 word list option \<Rightarrow> nat \<Rightarrow> error + (Nodes \<times> nat)"
where
  "Nodes_AddNode ns type desc aux_info metadata_ptr metadata_size =
     (if length (m_node_type ns) \<noteq> length (m_description ns) then Inl AssertionFailure
      else if length (m_node_type ns) \<noteq> length (m_aux_info ns) then Inl AssertionFailure
      else if length (m_node_type ns) \<noteq> length (m_metadata ns) then Inl AssertionFailure
      else
        (case (case metadata_ptr of
                 None \<Rightarrow> Inr (replicate metadata_size 0)
               | Some bytes \<Rightarrow>
                   if length bytes < metadata_size then Inl OutOfBounds
                   else Inr (take metadata_size bytes)) of
           Inl e \<Rightarrow> Inl e
         | Inr temp \<Rightarrow>
             Inr (ns\<lparr>m_node_type := m_node_type ns @ [type],
                     m_description := m_description ns @ [desc],
                     m_aux_info := m_aux_info ns @ [aux_info],
                     m_metadata := m_metadata ns @ [temp]\<rparr>,
                  length (m_node_type ns))))"

subsection \<open>\<^verbatim>\<open>AuxInfo::IbNode\<close> and the Ib accessors\<close>

text \<open>\<open>kMaxNumIbsBits\<close> is a constant of a header that is not among the sources; it is a
  parameter of the model.\<close>

definition IbNode :: "nat \<Rightarrow> 32 word \<Rightarrow> IbType \<Rightarrow> 32 word \<Rightarrow> bool \<Rightarrow> error + AuxInfo" where
  "IbNode kMaxNumIbsBits ib_index ib_type size_in_dwords fully_captured =
     (if (ib_index AND (push_bit kMaxNumIbsBits 1 - 1)) \<noteq> ib_index then Inl AssertionFailure
      else
        let ty = IbType_to_u8 ib_type;
            ix = (ucast (ib_index AND (push_bit kMaxNumIbsBits 1 - 1)) :: 8 word);
            fc = (if fully_captured = True then 1 else 0 :: 1 word)
        in if IbType_of_u8 ty \<noteq> Some ib_type then Inl AssertionFailure
           else Inr (IbNodeAux ty ix size_in_dwords fc))"

text \<open>The accessors assert the index and the node type, then read the \<^verbatim>\<open>ib_node\<close> member.\<close>

definition ib_node_of :: "Nodes \<Rightarrow> nat \<Rightarrow> error + (8 word \<times> 8 word \<times> 32 word \<times> 1 word)" where
  "ib_node_of ns node_index =
     (if \<not> node_index < length (m_aux_info ns) then Inl AssertionFailure
      else if \<not> node_index < length (m_node_type ns) then Inl OutOfBounds
      else if m_node_type ns ! node_index \<noteq> kIbNode then Inl AssertionFailure
      else (case m_aux_info ns ! node_index of
              IbNodeAux ty ix sz fc \<Rightarrow> Inr (ty, ix, sz, fc)
            | _ \<Rightarrow> Inl LayoutDependent))"

definition GetIbNodeIndex :: "Nodes \<Rightarrow> nat \<Rightarrow> error + 8 word" where
  "GetIbNodeIndex ns node_index =
     (case ib_node_of ns node_index of Inl e \<Rightarrow> Inl e | Inr (ty, ix, sz, fc) \<Rightarrow> Inr ix)"

definition GetIbNodeType :: "Nodes \<Rightarrow> nat \<Rightarrow> error + IbType option" where
  "GetIbNodeType ns node_index =
     (case ib_node_of ns node_index of
        Inl e \<Rightarrow> Inl e | Inr (ty, ix, sz, fc) \<Rightarrow> Inr (IbType_of_u8 ty))"

definition GetIbNodeSizeInDwords :: "Nodes \<Rightarrow> nat \<Rightarrow> error + 32 word" where
  "GetIbNodeSizeInDwords ns node_index =
     (case ib_node_of ns node_index of Inl e \<Rightarrow> Inl e | Inr (ty, ix, sz, fc) \<Rightarrow> Inr sz)"

definition GetIbNodeIsFullyCaptured :: "Nodes \<Rightarrow> nat \<Rightarrow> error + bool" where
  "GetIbNodeIsFullyCaptured ns node_index =
     (case ib_node_of ns node_index of
        Inl e \<Rightarrow> Inl e | Inr (ty, ix, sz, fc) \<Rightarrow> Inr (fc \<noteq> 0))"


subsection \<open>Topology\<close>

text \<open>\<^verbatim>\<open>m_node_children\<close> and \<^verbatim>\<open>m_node_shared_children\<close> hold one
  \<open>(m_start_index, m_num_children)\<close> pair per node.\<close>

record Topology =
  m_node_children :: "(nat \<times> nat) list"
  m_node_shared_children :: "(nat \<times> nat) list"
  m_children_list :: "nat list"
  m_shared_children_list :: "nat list"
  m_node_parent :: "nat list"
  m_node_child_index :: "nat list"

definition empty_Topology :: Topology where
  "empty_Topology = \<lparr>m_node_children = [], m_node_shared_children = [], m_children_list = [],
     m_shared_children_list = [], m_node_parent = [], m_node_child_index = []\<rparr>"

definition GetNumNodes :: "Topology \<Rightarrow> error + nat" where
  "GetNumNodes T =
     (if length (m_node_children T) \<noteq> length (m_node_shared_children T) then Inl AssertionFailure
      else if length (m_node_children T) \<noteq> length (m_node_parent T) then Inl AssertionFailure
      else if length (m_node_children T) \<noteq> length (m_node_child_index T) then Inl AssertionFailure
      else Inr (length (m_node_children T)))"

definition GetParentNodeIndex :: "Topology \<Rightarrow> nat \<Rightarrow> error + nat" where
  "GetParentNodeIndex T node_index =
     (if \<not> node_index < length (m_node_parent T) then Inl AssertionFailure
      else Inr (m_node_parent T ! node_index))"

definition GetChildIndex :: "Topology \<Rightarrow> nat \<Rightarrow> error + nat" where
  "GetChildIndex T node_index =
     (if \<not> node_index < length (m_node_child_index T) then Inl AssertionFailure
      else Inr (m_node_child_index T ! node_index))"

definition GetNumChildren :: "Topology \<Rightarrow> nat \<Rightarrow> error + nat" where
  "GetNumChildren T node_index =
     (if \<not> node_index < length (m_node_children T) then Inl AssertionFailure
      else Inr (snd (m_node_children T ! node_index)))"

definition GetChildNodeIndex :: "Topology \<Rightarrow> nat \<Rightarrow> nat \<Rightarrow> error + nat" where
  "GetChildNodeIndex T node_index child_index =
     (if \<not> node_index < length (m_node_children T) then Inl AssertionFailure
      else if \<not> child_index < snd (m_node_children T ! node_index) then Inl AssertionFailure
      else
        let child_list_index = fst (m_node_children T ! node_index) + child_index
        in if \<not> child_list_index < length (m_children_list T) then Inl AssertionFailure
           else Inr (m_children_list T ! child_list_index))"

definition GetNumSharedChildren :: "Topology \<Rightarrow> nat \<Rightarrow> error + nat" where
  "GetNumSharedChildren T node_index =
     (if \<not> node_index < length (m_node_shared_children T) then Inl AssertionFailure
      else Inr (snd (m_node_shared_children T ! node_index)))"

definition GetSharedChildNodeIndex :: "Topology \<Rightarrow> nat \<Rightarrow> nat \<Rightarrow> error + nat" where
  "GetSharedChildNodeIndex T node_index child_index =
     (if \<not> node_index < length (m_node_shared_children T) then Inl AssertionFailure
      else if \<not> child_index < snd (m_node_shared_children T ! node_index)
        then Inl AssertionFailure
      else
        let child_list_index = fst (m_node_shared_children T ! node_index) + child_index
        in if \<not> child_list_index < length (m_shared_children_list T) then Inl AssertionFailure
           else Inr (m_shared_children_list T ! child_list_index))"

text \<open>\<^verbatim>\<open>GetNextNodeIndex\<close>. The \<^verbatim>\<open>while (true)\<close> loop is a partial function: \<open>None\<close> is
  a walk that never returns. The sibling index is computed in \<^verbatim>\<open>uint64_t\<close> and wraps.\<close>

partial_function (option) GetNextNodeIndex_loop :: "Topology \<Rightarrow> nat \<Rightarrow> (error + nat) option"
where
  "GetNextNodeIndex_loop T node_index =
     (if node_index = kRootNodeIndex then Some (Inr UINT64_MAX)
      else
        (case GetParentNodeIndex T node_index of
           Inl e \<Rightarrow> Some (Inl e)
         | Inr parent_node_index \<Rightarrow>
             (case GetChildIndex T node_index of
                Inl e \<Rightarrow> Some (Inl e)
              | Inr ci \<Rightarrow>
                  let sibling_index = (ci + 1) mod 2 ^ 64
                  in (case GetNumChildren T parent_node_index of
                        Inl e \<Rightarrow> Some (Inl e)
                      | Inr nc \<Rightarrow>
                          if sibling_index < nc
                          then Some (GetChildNodeIndex T parent_node_index sibling_index)
                          else GetNextNodeIndex_loop T parent_node_index))))"

declare GetNextNodeIndex_loop.simps [code]

definition GetNextNodeIndex :: "Topology \<Rightarrow> nat \<Rightarrow> (error + nat) option" where
  "GetNextNodeIndex T node_index =
     (case GetNumChildren T node_index of
        Inl e \<Rightarrow> Some (Inl e)
      | Inr num_children \<Rightarrow>
          if num_children > 0 then Some (GetChildNodeIndex T node_index 0)
          else GetNextNodeIndex_loop T node_index)"

text \<open>The primary-tree invariant: the per-node arrays have one length, every child range
  lies inside \<open>m_children_list\<close>, the sizes are \<^verbatim>\<open>uint64_t\<close> values below the sentinel, and every
  node but the root has a parent that lists it at its child index.\<close>

definition primary_tree_inv :: "Topology \<Rightarrow> bool" where
  "primary_tree_inv T =
     (length (m_node_shared_children T) = length (m_node_children T) \<and>
      length (m_node_parent T) = length (m_node_children T) \<and>
      length (m_node_child_index T) = length (m_node_children T) \<and>
      length (m_node_children T) \<le> UINT64_MAX \<and>
      length (m_children_list T) \<le> UINT64_MAX \<and>
      (\<forall>p \<in> {..<length (m_node_children T)}.
         fst (m_node_children T ! p) + snd (m_node_children T ! p) \<le> length (m_children_list T)) \<and>
      (\<forall>n \<in> {..<length (m_node_children T)}. n \<noteq> kRootNodeIndex \<longrightarrow>
         m_node_parent T ! n \<noteq> UINT64_MAX \<and>
         GetChildNodeIndex T (m_node_parent T ! n) (m_node_child_index T ! n) = Inr n))"

text \<open>The words of the claim: node \<open>a\<close> has a next sibling; \<open>a\<close> is reached from \<open>n\<close> by
  walking up through nodes that are not the root and have no next sibling.\<close>

definition has_next_sibling :: "Topology \<Rightarrow> nat \<Rightarrow> bool" where
  "has_next_sibling T a =
     (m_node_child_index T ! a + 1 < snd (m_node_children T ! (m_node_parent T ! a)))"

inductive walks_up :: "Topology \<Rightarrow> nat \<Rightarrow> nat \<Rightarrow> bool" for T n where
  walks_up_self: "walks_up T n n"
| walks_up_parent:
    "walks_up T n a \<Longrightarrow> a \<noteq> kRootNodeIndex \<Longrightarrow> \<not> has_next_sibling T a \<Longrightarrow>
     walks_up T n (m_node_parent T ! a)"

definition next_in_preorder_spec :: "Topology \<Rightarrow> nat \<Rightarrow> nat \<Rightarrow> bool" where
  "next_in_preorder_spec T n r =
     (if snd (m_node_children T ! n) > 0 then GetChildNodeIndex T n 0 = Inr r
      else \<exists>a. walks_up T n a \<and>
             (if a = kRootNodeIndex then r = UINT64_MAX
              else has_next_sibling T a \<and>
                   GetChildNodeIndex T (m_node_parent T ! a) (m_node_child_index T ! a + 1) = Inr r))"

fun up_path :: "Topology \<Rightarrow> nat list \<Rightarrow> bool" where
  "up_path T [] = False"
| "up_path T [n] = True"
| "up_path T (a # b # xs) =
     (a = m_node_parent T ! b \<and> b \<noteq> kRootNodeIndex \<and> \<not> has_next_sibling T b \<and>
      up_path T (b # xs))"

text \<open>\<^verbatim>\<open>std::vector::resize\<close>\<close>

definition resize :: "'a list \<Rightarrow> nat \<Rightarrow> 'a \<Rightarrow> 'a list" where
  "resize xs n d = take n xs @ replicate (n - length xs) d"

definition SetNumNodes :: "Topology \<Rightarrow> nat \<Rightarrow> Topology" where
  "SetNumNodes T num_nodes =
     T\<lparr>m_node_children := resize (m_node_children T) num_nodes (0, 0),
       m_node_shared_children := resize (m_node_shared_children T) num_nodes (0, 0),
       m_node_parent := resize (m_node_parent T) num_nodes UINT64_MAX,
       m_node_child_index := resize (m_node_child_index T) num_nodes UINT64_MAX\<rparr>"

text \<open>The loop of \<^verbatim>\<open>AddChildren\<close> over \<open>children[i]\<close>, from index \<open>i\<close> on.\<close>

fun AddChildren_loop :: "Topology \<Rightarrow> nat \<Rightarrow> nat list \<Rightarrow> nat \<Rightarrow> error + Topology" where
  "AddChildren_loop T node_index [] i = Inr T"
| "AddChildren_loop T node_index (child_node_index # rest) i =
     (if \<not> child_node_index < length (m_node_children T) then Inl AssertionFailure
      else if \<not> child_node_index < length (m_node_parent T) then Inl OutOfBounds
      else if m_node_parent T ! child_node_index \<noteq> UINT64_MAX then Inl AssertionFailure
      else if \<not> child_node_index < length (m_node_child_index T) then Inl OutOfBounds
      else if m_node_child_index T ! child_node_index \<noteq> UINT64_MAX then Inl AssertionFailure
      else AddChildren_loop
             (T\<lparr>m_node_parent := (m_node_parent T)[child_node_index := node_index],
                m_node_child_index := (m_node_child_index T)[child_node_index := i]\<rparr>)
             node_index rest (i + 1))"

definition AddChildren :: "Topology \<Rightarrow> nat \<Rightarrow> nat list \<Rightarrow> error + Topology" where
  "AddChildren T node_index children =
     (if length (m_node_children T) \<noteq> length (m_node_parent T) then Inl AssertionFailure
      else if length (m_node_children T) \<noteq> length (m_node_child_index T) then Inl AssertionFailure
      else
        let prev_size = length (m_children_list T);
            T1 = T\<lparr>m_children_list := m_children_list T @ children\<rparr>
        in if \<not> node_index < length (m_node_children T1) then Inl OutOfBounds
           else if snd (m_node_children T1 ! node_index) \<noteq> 0 then Inl AssertionFailure
           else AddChildren_loop
                  (T1\<lparr>m_node_children :=
                        (m_node_children T1)[node_index := (prev_size, length children)]\<rparr>)
                  node_index children 0)"

definition AddSharedChildren :: "Topology \<Rightarrow> nat \<Rightarrow> nat list \<Rightarrow> error + Topology" where
  "AddSharedChildren T node_index children =
     (if length (m_node_shared_children T) \<noteq> length (m_node_parent T) then Inl AssertionFailure
      else if length (m_node_shared_children T) \<noteq> length (m_node_child_index T)
        then Inl AssertionFailure
      else
        let prev_size = length (m_shared_children_list T);
            T1 = T\<lparr>m_shared_children_list := m_shared_children_list T @ children\<rparr>
        in if \<not> node_index < length (m_node_shared_children T1) then Inl OutOfBounds
           else if snd (m_node_shared_children T1 ! node_index) \<noteq> 0 then Inl AssertionFailure
           else Inr (T1\<lparr>m_node_shared_children :=
                        (m_node_shared_children T1)[node_index := (prev_size, length children)]\<rparr>))"

text \<open>The last loop of \<^verbatim>\<open>CreateTopologies\<close> for one topology: \<open>children0\<close> and
  \<open>children1\<close> are \<^verbatim>\<open>m_node_children[topology][0]\<close> and \<^verbatim>\<open>[1]\<close>; the inner
  \<^verbatim>\<open>for\<close> loop runs over the node indices \<open>[0..<num_nodes]\<close>.\<close>

fun fill_topology ::
  "Topology \<Rightarrow> nat list list \<Rightarrow> nat list list \<Rightarrow> nat list \<Rightarrow> error + Topology"
where
  "fill_topology T children0 children1 [] = Inr T"
| "fill_topology T children0 children1 (node_index # rest) =
     (if length children0 \<noteq> length children1 then Inl AssertionFailure
      else
        (case AddChildren T node_index (children0 ! node_index) of
           Inl e \<Rightarrow> Inl e
         | Inr T1 \<Rightarrow>
             (case AddSharedChildren T1 node_index (children1 ! node_index) of
                Inl e \<Rightarrow> Inl e
              | Inr T2 \<Rightarrow> fill_topology T2 children0 children1 rest)))"

definition build_topology :: "Topology \<Rightarrow> nat list list \<Rightarrow> nat list list \<Rightarrow> error + Topology" where
  "build_topology cur_topology children0 children1 =
     (let num_nodes = length children0
      in fill_topology (SetNumNodes cur_topology num_nodes) children0 children1 [0..<num_nodes])"

text \<open>Two predicates for the proofs about the construction: the child range of node \<open>p\<close>
  holds the list \<open>cs\<close>; every element of \<open>cs\<close> has the parent \<open>p\<close> and its position as child
  index.\<close>

definition seg_ok :: "(nat \<times> nat) list \<Rightarrow> nat list \<Rightarrow> nat \<Rightarrow> nat list \<Rightarrow> bool" where
  "seg_ok info lst p cs =
     (p < length info \<and> snd (info ! p) = length cs \<and> fst (info ! p) + length cs \<le> length lst \<and>
      (\<forall>k < length cs. lst ! (fst (info ! p) + k) = cs ! k))"

definition par_ok :: "Topology \<Rightarrow> nat \<Rightarrow> nat list \<Rightarrow> bool" where
  "par_ok T p cs =
     (\<forall>k < length cs. cs ! k < length (m_node_parent T) \<and> m_node_parent T ! (cs ! k) = p \<and>
                      m_node_child_index T ! (cs ! k) = k)"


subsection \<open>\<^verbatim>\<open>CommandHierarchy::GetEventIndex\<close>\<close>

text \<open>\<^verbatim>\<open>std::lower_bound\<close> over the index range \<open>[first, first + len)\<close> of a vector: the
  binary search of the standard library.\<close>

function lower_bound :: "nat list \<Rightarrow> nat \<Rightarrow> nat \<Rightarrow> nat \<Rightarrow> nat" where
  "lower_bound xs v first len =
     (if len > 0 then
        let half = len div 2; middle = first + half
        in if xs ! middle < v then lower_bound xs v (middle + 1) (len - (half + 1))
           else lower_bound xs v first half
      else first)"
  by pat_completeness auto
termination
  by (relation "measure (\<lambda>(xs, v, first, len). len)") auto

declare lower_bound.simps [simp del]

definition GetEventIndex :: "Nodes \<Rightarrow> nat \<Rightarrow> nat" where
  "GetEventIndex ns node_index =
     (let indices = m_event_node_indices ns;
          it = lower_bound indices node_index 0 (length indices)
      in if it = length indices \<or> indices ! it \<noteq> node_index then 0 else it - 0 + 1)"

subsection \<open>Formatting\<close>

text \<open>\<^verbatim>\<open>operator<<\<close> of an unsigned number on a stream in \<^verbatim>\<open>std::dec\<close> and \<^verbatim>\<open>std::hex\<close> mode.\<close>

definition digit_char :: "nat \<Rightarrow> char" where
  "digit_char d = ''0123456789abcdef'' ! d"

function show_base :: "nat \<Rightarrow> nat \<Rightarrow> string" where
  "show_base b n =
     (if b < 2 \<or> n < b then [digit_char n]
      else show_base b (n div b) @ [digit_char (n mod b)])"
  by pat_completeness auto
termination
  by (relation "measure (\<lambda>(b, n). n)") auto

declare show_base.simps [simp del]

definition show_dec :: "nat \<Rightarrow> string" where
  "show_dec n = show_base 10 n"

definition show_hex :: "nat \<Rightarrow> string" where
  "show_hex n = show_base 16 n"

subsection \<open>What the builder consumes\<close>

datatype Pm4Type = kType4 | kType7 | kTypeOther

text \<open>\<^verbatim>\<open>IndirectBufferInfo\<close>: \<open>m_va_addr\<close>, \<open>m_size_in_dwords\<close>, \<open>m_skip\<close>.\<close>

datatype IndirectBufferInfo = IndirectBufferInfo "64 word" "32 word" bool

text \<open>\<^verbatim>\<open>SubmitInfo\<close>: engine type, queue type, engine index, dummy flag, indirect buffers.\<close>

record SubmitInfo =
  GetEngineType :: EngineType
  GetQueueType :: nat
  GetEngineIndex :: "8 word"
  IsDummySubmit :: bool
  GetIndirectBufferInfo :: "IndirectBufferInfo list"

record PresentInfo =
  GetSubmitIndex :: "32 word"
  HasValidData :: bool
  IsFullScreen :: bool
  present_engine_type :: EngineType
  present_queue_type :: nat
  GetSurfaceAddr :: "64 word"
  GetSurfaceSize :: "64 word"
  GetSurfaceVkFormat :: "32 word"
  GetSurfaceVkColorSpaceKHR :: "32 word"

text \<open>\<^verbatim>\<open>IMemoryManager::CopyMemory\<close> for the four bytes of one dword: \<open>None\<close> is the
  \<^verbatim>\<open>false\<close> return.\<close>

type_synonym MemoryManager = "32 word \<Rightarrow> 64 word \<Rightarrow> 32 word option"

record CaptureData =
  GetSubmitInfo :: "SubmitInfo list"
  GetPresentInfo :: "PresentInfo list"
  GetMemoryManager :: MemoryManager
  GetVulkanMetadataVersion :: "32 word"

text \<open>The callbacks of the emulator, in the order it makes them for one submit.\<close>

datatype emu_callback =
    IbStart "32 word" IndirectBufferInfo IbType
  | Packet "32 word" "64 word" Pm4Type "32 word"
  | IbEnd "32 word" IndirectBufferInfo

text \<open>\<^verbatim>\<open>PacketField\<close>: \<open>m_name\<close>, \<open>m_dword\<close>, \<open>m_mask\<close>, \<open>m_shift\<close>, \<open>m_enum_handle\<close>;
  \<^verbatim>\<open>RegField\<close>: \<open>m_name\<close>, \<open>m_mask\<close>, \<open>m_shift\<close>; \<^verbatim>\<open>RegInfo\<close>: \<open>m_name\<close>, \<open>m_fields\<close>;
  \<^verbatim>\<open>PacketInfo\<close>: \<open>m_fields\<close>.\<close>

datatype PacketField = PacketField string "32 word" "32 word" "32 word" "32 word"
datatype RegField = RegField string "32 word" "32 word"
datatype RegInfo = RegInfo string "RegField list"
datatype PacketInfo = PacketInfo "PacketField list"

text \<open>The Vulkan command ids that \<^verbatim>\<open>IsVulkanEvent\<close> and \<^verbatim>\<open>OnVulkanMarkerEnd\<close> name.\<close>

datatype VKCmdID =
    vkCmdDrawCmdID | vkCmdDrawIndexedCmdID | vkCmdDrawIndirectCmdID
  | vkCmdDrawIndexedIndirectCmdID | vkCmdDispatchCmdID | vkCmdDispatchIndirectCmdID
  | vkCmdDrawIndirectCountAMDCmdID | vkCmdDrawIndexedIndirectCountAMDCmdID
  | vkCmdDispatchBaseKHRCmdID | vkCmdDispatchBaseCmdID | vkCmdDrawIndirectCountKHRCmdID
  | vkCmdDrawIndexedIndirectCountKHRCmdID | vkCmdPipelineBarrierCmdID
  | vkCmdBeginRenderPassCmdID | vkCmdEndRenderPassCmdID | vkCmdClearAttachmentsCmdID
  | vkCmdClearColorImageCmdID | vkCmdClearDepthStencilImageCmdID | vkCmdFillBufferCmdID
  | vkCmdCopyImageCmdID | vkCmdCopyBufferToImageCmdID | vkCmdCopyBufferCmdID
  | vkCmdCopyImageToBufferCmdID | vkCmdResetQueryPoolCmdID | vkCmdCopyQueryPoolResultsCmdID
  | vkCmdExecuteCommandsCmdID | vkQueueSubmit | vkEndCommandBufferCmdID

text \<open>
  What the source takes from files that are not among the sources, as parameters of the
  model: the constants \<open>kMaxNumIbsBits\<close> and \<open>EngineType::kCount\<close>, the string tables, the
  packet catalog (\<^verbatim>\<open>pm4_info.h\<close>), the bit-fields of the two packet headers, the opcode and
  command-id enumerators, the default arguments of \<^verbatim>\<open>AppendPacketFieldNodes\<close>, the functions
  \<^verbatim>\<open>GetSyncType\<close> and \<^verbatim>\<open>IsNonVulkanEvent\<close>, \<^verbatim>\<open>std::sort\<close>, and the emulator
  \<^verbatim>\<open>EmulatePM4::ExecuteSubmit\<close>, which is given by the callbacks it makes for a submit and the
  value it returns.
\<close>

record Env =
  kMaxNumIbsBits :: nat
  kEngineTypeCount :: nat
  kEngineTypeStrings :: "nat \<Rightarrow> string"
  kQueueTypeStrings :: "nat \<Rightarrow> string"
  GetOpCodeString :: "32 word \<Rightarrow> string"
  GetPacketInfo :: "32 word \<Rightarrow> PacketInfo option"
  GetRegInfo :: "32 word \<Rightarrow> RegInfo option"
  GetEnumString :: "32 word \<Rightarrow> 32 word \<Rightarrow> string option"
  GetVkFormatString :: "32 word \<Rightarrow> string option"
  GetVkColorSpaceKhrString :: "32 word \<Rightarrow> string option"
  type7_opcode :: "32 word \<Rightarrow> 32 word"
  type7_count :: "32 word \<Rightarrow> 32 word"
  type4_offset :: "32 word \<Rightarrow> 32 word"
  type4_count :: "32 word \<Rightarrow> 32 word"
  CP_NOP :: "32 word"
  CP_DRAW_INDX_OFFSET :: "32 word"
  CP_DRAW_INDIRECT :: "32 word"
  CP_DRAW_INDX_INDIRECT :: "32 word"
  CP_DRAW_INDIRECT_MULTI :: "32 word"
  CP_DRAW_AUTO :: "32 word"
  VKCmdID_value :: "VKCmdID \<Rightarrow> 32 word"
  field_start_default :: nat
  field_last_default :: nat
  GetSyncType :: "MemoryManager \<Rightarrow> 32 word \<Rightarrow> 32 word list \<Rightarrow> 64 word list \<Rightarrow> SyncType"
  IsNonVulkanEvent :: "32 word \<Rightarrow> bool"
  std_sort :: "(nat \<Rightarrow> nat \<Rightarrow> bool) \<Rightarrow> nat list \<Rightarrow> nat list"
  ExecuteSubmit ::
    "MemoryManager \<Rightarrow> 32 word \<Rightarrow> IndirectBufferInfo list \<Rightarrow> emu_callback list \<times> bool"

text \<open>Modelled from the spec: \<^verbatim>\<open>IsDrawDispatchEvent\<close> is not among the sources; the spec gives
  it as membership of the opcode in the five draw opcodes, the ones \<^verbatim>\<open>GetEventString\<close> names.\<close>

definition IsDrawDispatchEvent :: "Env \<Rightarrow> 32 word \<Rightarrow> bool" where
  "IsDrawDispatchEvent env opcode =
     (opcode = CP_DRAW_INDX_OFFSET env \<or> opcode = CP_DRAW_INDIRECT env \<or>
      opcode = CP_DRAW_INDX_INDIRECT env \<or> opcode = CP_DRAW_INDIRECT_MULTI env \<or>
      opcode = CP_DRAW_AUTO env)"

subsection \<open>The state of the builder\<close>

datatype TopologyType =
    kEngineTopology | kSubmitTopology | kVulkanEventTopology | kVulkanCallTopology
  | kAllEventTopology | kRgpTopology

text \<open>The topology types that the loops up to \<^verbatim>\<open>kTopologyTypeCount\<close> run over.\<close>

definition all_topologies :: "TopologyType list" where
  "all_topologies =
     [kEngineTopology, kSubmitTopology, kVulkanEventTopology, kVulkanCallTopology,
      kAllEventTopology, kRgpTopology]"

record CommandHierarchy =
  m_nodes :: Nodes
  m_topology :: "TopologyType \<Rightarrow> Topology"
  m_metadata_version :: "32 word"

text \<open>\<^verbatim>\<open>CommandHierarchy()\<close>, the value that \<^verbatim>\<open>CreateTrees\<close> assigns first.\<close>

definition new_CommandHierarchy :: CommandHierarchy where
  "new_CommandHierarchy =
     \<lparr>m_nodes = empty_Nodes, m_topology = (\<lambda>t. empty_Topology), m_metadata_version = 0\<rparr>"

text \<open>Modelled from the spec: the packet run buffer \<^verbatim>\<open>m_packets\<close> with \<^verbatim>\<open>Add\<close> and
  \<^verbatim>\<open>Clear\<close> is declared in the header; it holds the opcode, the address and the node index of
  every buffered packet.\<close>

record Packets =
  m_packet_opcodes :: "32 word list"
  m_packet_addrs :: "64 word list"
  m_packet_node_indices :: "nat list"

definition Packets_Add :: "Packets \<Rightarrow> 32 word \<Rightarrow> 64 word \<Rightarrow> nat \<Rightarrow> Packets" where
  "Packets_Add p opcode addr node_index =
     \<lparr>m_packet_opcodes = m_packet_opcodes p @ [opcode],
      m_packet_addrs = m_packet_addrs p @ [addr],
      m_packet_node_indices = m_packet_node_indices p @ [node_index]\<rparr>"

definition Packets_Clear :: Packets where
  "Packets_Clear = \<lparr>m_packet_opcodes = [], m_packet_addrs = [], m_packet_node_indices = []\<rparr>"

text \<open>The members of \<^verbatim>\<open>CommandHierarchyCreator\<close> that the modelled functions read or write.
  \<open>m_command_hierarchy\<close> is the object behind \<^verbatim>\<open>m_command_hierarchy_ptr\<close>;
  \<open>m_node_children_0\<close> and \<open>m_node_children_1\<close> are \<^verbatim>\<open>m_node_children[type][0]\<close> (primary)
  and \<^verbatim>\<open>m_node_children[type][1]\<close> (shared); a stack is a list whose last element is
  \<^verbatim>\<open>back()\<close>.\<close>

record Creator =
  m_command_hierarchy :: CommandHierarchy
  m_capture_data_ptr :: "CaptureData option"
  m_node_children_0 :: "TopologyType \<Rightarrow> nat list list"
  m_node_children_1 :: "TopologyType \<Rightarrow> nat list list"
  m_node_parent_info :: "TopologyType \<Rightarrow> nat \<Rightarrow> nat option"
  m_num_events :: "32 word"
  m_cur_submit_node_index :: nat
  m_cur_engine_index :: "8 word"
  m_dcb_ib_stack :: "nat list"
  m_ccb_ib_stack :: "nat list"
  m_flatten_chain_nodes :: bool
  m_packets :: Packets
  m_cmd_begin_packet_node_indices :: "nat list"
  m_cmd_begin_event_node_indices :: "nat list"
  m_marker_stack :: "nat list"
  m_internal_marker_stack :: "nat list"
  m_has_unended_vulkan_marker :: bool
  m_cur_vulkan_cmd_id :: "32 word"
  m_is_secondary_cmdbuf_started :: bool

definition bindE :: "error + 'a \<Rightarrow> ('a \<Rightarrow> error + 'b) \<Rightarrow> error + 'b" where
  "bindE m f = (case m of Inl e \<Rightarrow> Inl e | Inr x \<Rightarrow> f x)"

abbreviation nodes_of :: "Creator \<Rightarrow> Nodes" where
  "nodes_of c \<equiv> m_nodes (m_command_hierarchy c)"

definition set_nodes :: "Creator \<Rightarrow> Nodes \<Rightarrow> Creator" where
  "set_nodes c ns = c\<lparr>m_command_hierarchy := (m_command_hierarchy c)\<lparr>m_nodes := ns\<rparr>\<rparr>"

text \<open>\<^verbatim>\<open>CommandHierarchyCreator::AddNode\<close>: the node goes into the store, then every pending
  table is asserted to have one entry per earlier node and grows by an empty entry.\<close>

fun AddNode_loop :: "Creator \<Rightarrow> nat \<Rightarrow> TopologyType list \<Rightarrow> error + Creator" where
  "AddNode_loop c node_index [] = Inr c"
| "AddNode_loop c node_index (i # rest) =
     (if length (m_node_children_0 c i) \<noteq> node_index then Inl AssertionFailure
      else if length (m_node_children_1 c i) \<noteq> node_index then Inl AssertionFailure
      else AddNode_loop
             (c\<lparr>m_node_children_0 := (m_node_children_0 c)(i := m_node_children_0 c i @ [[]]),
                m_node_children_1 := (m_node_children_1 c)(i := m_node_children_1 c i @ [[]])\<rparr>)
             node_index rest)"

definition AddNode ::
  "Creator \<Rightarrow> NodeType \<Rightarrow> string \<Rightarrow> AuxInfo \<Rightarrow> error + (Creator \<times> nat)" where
  "AddNode c type desc aux_info =
     bindE (Nodes_AddNode (nodes_of c) type desc aux_info None 0) (\<lambda>(ns, node_index).
     bindE (AddNode_loop (set_nodes c ns) node_index all_topologies) (\<lambda>c'.
     Inr (c', node_index)))"

definition AppendEventNodeIndex :: "Creator \<Rightarrow> nat \<Rightarrow> Creator" where
  "AppendEventNodeIndex c node_index =
     set_nodes c ((nodes_of c)\<lparr>m_event_node_indices :=
                     m_event_node_indices (nodes_of c) @ [node_index]\<rparr>)"

definition AddChild :: "Creator \<Rightarrow> TopologyType \<Rightarrow> nat \<Rightarrow> nat \<Rightarrow> error + Creator" where
  "AddChild c type node_index child_node_index =
     (if \<not> node_index < length (m_node_children_0 c type) then Inl AssertionFailure
      else Inr (c\<lparr>m_node_children_0 := (m_node_children_0 c)
                  (type := (m_node_children_0 c type)
                     [node_index := m_node_children_0 c type ! node_index @ [child_node_index]])\<rparr>))"

definition AddSharedChild :: "Creator \<Rightarrow> TopologyType \<Rightarrow> nat \<Rightarrow> nat \<Rightarrow> error + Creator" where
  "AddSharedChild c type node_index child_node_index =
     (if \<not> node_index < length (m_node_children_1 c type) then Inl AssertionFailure
      else Inr (c\<lparr>m_node_children_1 := (m_node_children_1 c)
                  (type := (m_node_children_1 c type)
                     [node_index := m_node_children_1 c type ! node_index @ [child_node_index]])\<rparr>))"

text \<open>\<^verbatim>\<open>AddChild\<close> and \<^verbatim>\<open>AddSharedChild\<close> of one child in several topologies, in the order of
  the calls.\<close>

fun AddChild_in :: "Creator \<Rightarrow> TopologyType list \<Rightarrow> nat \<Rightarrow> nat \<Rightarrow> error + Creator" where
  "AddChild_in c [] node_index child = Inr c"
| "AddChild_in c (t # ts) node_index child =
     bindE (AddChild c t node_index child) (\<lambda>c'. AddChild_in c' ts node_index child)"

fun AddSharedChild_in :: "Creator \<Rightarrow> TopologyType list \<Rightarrow> nat \<Rightarrow> nat \<Rightarrow> error + Creator" where
  "AddSharedChild_in c [] node_index child = Inr c"
| "AddSharedChild_in c (t # ts) node_index child =
     bindE (AddSharedChild c t node_index child) (\<lambda>c'. AddSharedChild_in c' ts node_index child)"

definition GetChildNodeIndex_pending :: "Creator \<Rightarrow> TopologyType \<Rightarrow> nat \<Rightarrow> nat \<Rightarrow> error + nat" where
  "GetChildNodeIndex_pending c type node_index child_index =
     (if \<not> node_index < length (m_node_children_0 c type) then Inl AssertionFailure
      else if \<not> child_index < length (m_node_children_0 c type ! node_index)
        then Inl AssertionFailure
      else Inr (m_node_children_0 c type ! node_index ! child_index))"

definition GetChildCount :: "Creator \<Rightarrow> TopologyType \<Rightarrow> nat \<Rightarrow> error + nat" where
  "GetChildCount c type node_index =
     (if \<not> node_index < length (m_node_children_0 c type) then Inl AssertionFailure
      else Inr (length (m_node_children_0 c type ! node_index)))"


subsection \<open>Node accessors of \<^verbatim>\<open>CommandHierarchy\<close>\<close>

definition GetNodeType :: "Nodes \<Rightarrow> nat \<Rightarrow> error + NodeType" where
  "GetNodeType ns node_index =
     (if \<not> node_index < length (m_node_type ns) then Inl AssertionFailure
      else Inr (m_node_type ns ! node_index))"

definition marker_node_of :: "Nodes \<Rightarrow> nat \<Rightarrow> error + (MarkerType \<times> 32 word)" where
  "marker_node_of ns node_index =
     (if \<not> node_index < length (m_aux_info ns) then Inl AssertionFailure
      else if \<not> node_index < length (m_node_type ns) then Inl OutOfBounds
      else if m_node_type ns ! node_index \<noteq> kMarkerNode then Inl AssertionFailure
      else (case m_aux_info ns ! node_index of
              MarkerNodeAux ty ident \<Rightarrow> Inr (ty, ident)
            | _ \<Rightarrow> Inl LayoutDependent))"

definition GetMarkerNodeType :: "Nodes \<Rightarrow> nat \<Rightarrow> error + MarkerType" where
  "GetMarkerNodeType ns node_index = bindE (marker_node_of ns node_index) (\<lambda>(ty, ident). Inr ty)"

definition GetMarkerNodeId :: "Nodes \<Rightarrow> nat \<Rightarrow> error + 32 word" where
  "GetMarkerNodeId ns node_index = bindE (marker_node_of ns node_index) (\<lambda>(ty, ident). Inr ident)"

definition PacketNode :: "64 word \<Rightarrow> 8 word \<Rightarrow> bool \<Rightarrow> error + AuxInfo" where
  "PacketNode addr opcode is_ce_packet =
     (if addr \<noteq> (addr AND 0x0000FFFFFFFFFFFF) then Inl AssertionFailure
      else Inr (PacketNodeAux (ucast (addr AND 0x0000FFFFFFFFFFFF)) opcode is_ce_packet))"

subsection \<open>\<^verbatim>\<open>OnIbStart\<close> and \<^verbatim>\<open>OnIbEnd\<close>\<close>

definition ib_description :: "32 word \<Rightarrow> IndirectBufferInfo \<Rightarrow> IbType \<Rightarrow> string" where
  "ib_description ib_index ib_info type =
     (case ib_info of IndirectBufferInfo va_addr size_in_dwords skip \<Rightarrow>
        (case type of
           kNormal \<Rightarrow> ''IB: '' @ show_dec (unat ib_index)
         | kCall \<Rightarrow> ''Call IB''
         | kChain \<Rightarrow> ''Chain IB'')
        @ '', Address: 0x'' @ show_hex (unat va_addr)
        @ '', Size (DWORDS): '' @ show_dec (unat size_in_dwords)
        @ (if skip then '', NOT CAPTURED'' else ''''))"

text \<open>The loop of \<^verbatim>\<open>OnIbStart\<close> that looks for the first previous non-chain parent. It
  visits \<^verbatim>\<open>m_dcb_ib_stack[i]\<close> from \<open>i = size - 1\<close> down to 0, so it is given the stack
  reversed; \<open>parent_node_index\<close> is the value kept when no entry qualifies.\<close>

fun nearest_non_chain :: "Nodes \<Rightarrow> nat list \<Rightarrow> nat \<Rightarrow> error + nat" where
  "nearest_non_chain ns [] parent_node_index = Inr parent_node_index"
| "nearest_non_chain ns (index # below) parent_node_index =
     (case GetIbNodeType ns index of
        Inl e \<Rightarrow> Inl e
      | Inr cur_type \<Rightarrow>
          if cur_type \<noteq> Some kChain then Inr index
          else nearest_non_chain ns below parent_node_index)"

definition OnIbStart ::
  "Env \<Rightarrow> Creator \<Rightarrow> 32 word \<Rightarrow> 32 word \<Rightarrow> IndirectBufferInfo \<Rightarrow> IbType \<Rightarrow> error + Creator"
where
  "OnIbStart env c submit_index ib_index ib_info type =
     (case ib_info of IndirectBufferInfo va_addr size_in_dwords skip \<Rightarrow>
      bindE (IbNode (kMaxNumIbsBits env) ib_index type size_in_dwords (\<not> skip)) (\<lambda>aux_info.
      bindE (AddNode c kIbNode (ib_description ib_index ib_info type) aux_info)
        (\<lambda>(c1, ib_node_index).
      let parent0 = (if m_dcb_ib_stack c1 \<noteq> [] then last (m_dcb_ib_stack c1)
                     else m_cur_submit_node_index c1)
      in
      bindE (if m_flatten_chain_nodes c1 \<and> type = kChain
             then nearest_non_chain (nodes_of c1) (rev (m_dcb_ib_stack c1)) parent0
             else Inr parent0) (\<lambda>parent_node_index.
      bindE (AddChild c1 kEngineTopology parent_node_index ib_node_index) (\<lambda>c2.
      bindE (AddChild c2 kSubmitTopology parent_node_index ib_node_index) (\<lambda>c3.
      Inr (c3\<lparr>m_dcb_ib_stack := m_dcb_ib_stack c3 @ [ib_node_index],
              m_cmd_begin_packet_node_indices := [],
              m_cmd_begin_event_node_indices := []\<rparr>)))))))"

text \<open>The \<^verbatim>\<open>while\<close> loop of \<^verbatim>\<open>OnIbEnd\<close>: it pops while the stack is not empty and the type
  read last is \<open>kChain\<close>, and reads the type of the new top after every pop, also when the pop
  has emptied the stack.\<close>

function pop_chain_ibs :: "Nodes \<Rightarrow> nat list \<Rightarrow> IbType option \<Rightarrow> error + nat list" where
  "pop_chain_ibs ns stack type =
     (if stack \<noteq> [] \<and> type = Some kChain then
        (if butlast stack = [] then Inl OutOfBounds
         else (case GetIbNodeType ns (last (butlast stack)) of
                 Inl e \<Rightarrow> Inl e
               | Inr type' \<Rightarrow> pop_chain_ibs ns (butlast stack) type'))
      else Inr stack)"
  by pat_completeness auto
termination
  by (relation "measure (\<lambda>(ns, stack, type). length stack)") auto

declare pop_chain_ibs.simps [simp del]

text \<open>The statements of \<^verbatim>\<open>OnIbEnd\<close> on \<^verbatim>\<open>m_dcb_ib_stack\<close>: the assertion, the first read of
  the top, the loop, and the final \<^verbatim>\<open>pop_back\<close>.\<close>

definition OnIbEnd_pop :: "Nodes \<Rightarrow> nat list \<Rightarrow> error + nat list" where
  "OnIbEnd_pop ns stack =
     (if stack = [] then Inl AssertionFailure
      else bindE (GetIbNodeType ns (last stack)) (\<lambda>type.
           bindE (pop_chain_ibs ns stack type) (\<lambda>stack1.
           if stack1 = [] then Inl OutOfBounds else Inr (butlast stack1))))"

definition OnVulkanMarkerEnd :: "Env \<Rightarrow> Creator \<Rightarrow> error + Creator" where
  "OnVulkanMarkerEnd env c =
     bindE (if m_has_unended_vulkan_marker c then
              (if m_marker_stack c = [] then Inl AssertionFailure
               else if m_internal_marker_stack c = [] then Inl AssertionFailure
               else Inr (c\<lparr>m_marker_stack := butlast (m_marker_stack c),
                           m_internal_marker_stack := butlast (m_internal_marker_stack c),
                           m_has_unended_vulkan_marker := False\<rparr>))
            else Inr c) (\<lambda>c1.
     if m_cur_vulkan_cmd_id c1 = VKCmdID_value env vkEndCommandBufferCmdID \<and>
        m_is_secondary_cmdbuf_started c1
     then Inr (c1\<lparr>m_marker_stack :=
                     (if m_marker_stack c1 \<noteq> [] then butlast (m_marker_stack c1)
                      else m_marker_stack c1),
                   m_internal_marker_stack :=
                     (if m_internal_marker_stack c1 \<noteq> []
                      then butlast (m_internal_marker_stack c1)
                      else m_internal_marker_stack c1),
                   m_cur_vulkan_cmd_id := - 1\<rparr>)
     else Inr c1)"

definition OnIbEnd ::
  "Env \<Rightarrow> Creator \<Rightarrow> 32 word \<Rightarrow> 32 word \<Rightarrow> IndirectBufferInfo \<Rightarrow> error + Creator" where
  "OnIbEnd env c submit_index ib_index ib_info =
     bindE (OnIbEnd_pop (nodes_of c) (m_dcb_ib_stack c)) (\<lambda>stack.
     bindE (OnVulkanMarkerEnd env (c\<lparr>m_dcb_ib_stack := stack\<rparr>)) (\<lambda>c1.
     Inr (c1\<lparr>m_cmd_begin_packet_node_indices := [],
             m_cmd_begin_event_node_indices := []\<rparr>)))"

subsection \<open>Packet nodes\<close>

definition four_topologies :: "TopologyType list" where
  "four_topologies = [kEngineTopology, kSubmitTopology, kAllEventTopology, kRgpTopology]"

text \<open>The first loop of \<^verbatim>\<open>AppendPacketFieldNodes\<close> over the field indices; it returns the
  state and \<open>end_dword\<close>. Leaving the list early is the \<^verbatim>\<open>break\<close>.\<close>

fun packet_field_loop ::
  "Env \<Rightarrow> MemoryManager \<Rightarrow> 32 word \<Rightarrow> 64 word \<Rightarrow> bool \<Rightarrow> 32 word \<Rightarrow> PacketField list \<Rightarrow> nat \<Rightarrow>
   Creator \<Rightarrow> nat list \<Rightarrow> 32 word \<Rightarrow> error + (Creator \<times> 32 word)"
where
  "packet_field_loop env mem submit_index va_addr is_ce_packet header m_fields packet_node_index
     c [] end_dword = Inr (c, end_dword)"
| "packet_field_loop env mem submit_index va_addr is_ce_packet header m_fields packet_node_index
     c (field # rest) end_dword =
     (if \<not> field < length m_fields then Inl OutOfBounds
      else
        (case m_fields ! field of PacketField m_name m_dword m_mask m_shift m_enum_handle \<Rightarrow>
           if m_dword > type7_count env header then Inr (c, m_dword)
           else
             (case mem submit_index (va_addr + ucast m_dword * 4) of
                None \<Rightarrow> Inl AssertionFailure
              | Some dword_value \<Rightarrow>
                  let field_value = drop_bit (unat m_shift) (dword_value AND m_mask)
                  in
                  (case (if m_enum_handle \<noteq> - 1
                         then (case GetEnumString env m_enum_handle field_value of
                                 None \<Rightarrow> Inl AssertionFailure
                               | Some enum_str \<Rightarrow> Inr (m_name @ '': '' @ enum_str))
                         else Inr (m_name @ '': 0x'' @ show_hex (unat field_value))) of
                     Inl e \<Rightarrow> Inl e
                   | Inr desc \<Rightarrow>
                       (case AddNode c kFieldNode desc (RegFieldNodeAux is_ce_packet) of
                          Inl e \<Rightarrow> Inl e
                        | Inr (c1, field_node_index) \<Rightarrow>
                            (case AddChild_in c1 four_topologies packet_node_index
                                    field_node_index of
                               Inl e \<Rightarrow> Inl e
                             | Inr c2 \<Rightarrow>
                                 packet_field_loop env mem submit_index va_addr is_ce_packet
                                   header m_fields packet_node_index c2 rest m_dword))))))"

text \<open>The second loop: the raw dwords \<open>i\<close> that no field covers.\<close>

fun raw_dword_loop ::
  "MemoryManager \<Rightarrow> 32 word \<Rightarrow> 64 word \<Rightarrow> bool \<Rightarrow> nat \<Rightarrow> Creator \<Rightarrow> nat list \<Rightarrow> error + Creator"
where
  "raw_dword_loop mem submit_index va_addr is_ce_packet packet_node_index c [] = Inr c"
| "raw_dword_loop mem submit_index va_addr is_ce_packet packet_node_index c (i # rest) =
     (case mem submit_index (va_addr + of_nat i * 4) of
        None \<Rightarrow> Inl AssertionFailure
      | Some dword_value \<Rightarrow>
          (case AddNode c kFieldNode
                  (''(DWORD '' @ show_dec i @ ''): 0x'' @ show_hex (unat dword_value))
                  (RegFieldNodeAux is_ce_packet) of
             Inl e \<Rightarrow> Inl e
           | Inr (c1, field_node_index) \<Rightarrow>
               (case AddChild_in c1 four_topologies packet_node_index field_node_index of
                  Inl e \<Rightarrow> Inl e
                | Inr c2 \<Rightarrow>
                    raw_dword_loop mem submit_index va_addr is_ce_packet packet_node_index
                      c2 rest)))"

definition AppendPacketFieldNodes ::
  "Env \<Rightarrow> MemoryManager \<Rightarrow> Creator \<Rightarrow> 32 word \<Rightarrow> 64 word \<Rightarrow> bool \<Rightarrow> 32 word \<Rightarrow> PacketInfo \<Rightarrow>
   nat \<Rightarrow> nat \<Rightarrow> nat \<Rightarrow> error + Creator"
where
  "AppendPacketFieldNodes env mem c submit_index va_addr is_ce_packet type7_header
     packet_info packet_node_index field_start field_last =
     (case packet_info of PacketInfo m_fields \<Rightarrow>
      let end_field = (if length m_fields < (field_last + 1) mod 2 ^ 64
                       then length m_fields mod 2 ^ 32
                       else (field_last + 1) mod 2 ^ 64)
      in
      bindE (packet_field_loop env mem submit_index va_addr is_ce_packet type7_header m_fields
               packet_node_index c [field_start..<end_field] (- 1)) (\<lambda>(c1, end_dword).
      if end_dword < type7_count env type7_header
      then raw_dword_loop mem submit_index va_addr is_ce_packet packet_node_index c1
             [unat (end_dword + 1)..<unat (type7_count env type7_header) + 1]
      else Inr c1))"

text \<open>The loop of \<^verbatim>\<open>AddRegisterNode\<close> over the fields of the register.\<close>

fun reg_field_loop :: "nat \<Rightarrow> 32 word \<Rightarrow> Creator \<Rightarrow> RegField list \<Rightarrow> error + Creator" where
  "reg_field_loop reg_node_index reg_value c [] = Inr c"
| "reg_field_loop reg_node_index reg_value c (reg_field # rest) =
     (case reg_field of RegField m_name m_mask m_shift \<Rightarrow>
        let field_value = drop_bit (unat m_shift) (reg_value AND m_mask)
        in
        (case AddNode c kFieldNode (m_name @ '': 0x'' @ show_hex (unat field_value))
                (RegFieldNodeAux False) of
           Inl e \<Rightarrow> Inl e
         | Inr (c1, field_node_index) \<Rightarrow>
             (case AddChild_in c1 four_topologies reg_node_index field_node_index of
                Inl e \<Rightarrow> Inl e
              | Inr c2 \<Rightarrow> reg_field_loop reg_node_index reg_value c2 rest)))"

definition AddRegisterNode :: "Env \<Rightarrow> Creator \<Rightarrow> 32 word \<Rightarrow> 32 word \<Rightarrow> error + (Creator \<times> nat)" where
  "AddRegisterNode env c reg reg_value =
     (case (case GetRegInfo env reg of None \<Rightarrow> RegInfo ''Unknown'' [] | Some r \<Rightarrow> r) of
        RegInfo m_name m_fields \<Rightarrow>
          bindE (AddNode c kRegNode (m_name @ '': 0x'' @ show_hex (unat reg_value))
                   (RegFieldNodeAux False)) (\<lambda>(c1, reg_node_index).
          bindE (reg_field_loop reg_node_index reg_value c1 m_fields) (\<lambda>c2.
          Inr (c2, reg_node_index))))"

text \<open>The loop of \<^verbatim>\<open>AppendRegNodes\<close> over \<open>i\<close>, with \<open>reg_addr\<close> as loop state.\<close>

fun reg_loop ::
  "Env \<Rightarrow> MemoryManager \<Rightarrow> 32 word \<Rightarrow> 64 word \<Rightarrow> nat \<Rightarrow> Creator \<Rightarrow> nat list \<Rightarrow> 32 word \<Rightarrow>
   error + Creator"
where
  "reg_loop env mem submit_index va_addr packet_node_index c [] reg_addr = Inr c"
| "reg_loop env mem submit_index va_addr packet_node_index c (i # rest) reg_addr =
     (case mem submit_index (va_addr + 4 + of_nat i * 4) of
        None \<Rightarrow> Inl AssertionFailure
      | Some reg_value \<Rightarrow>
          (case AddRegisterNode env c reg_addr reg_value of
             Inl e \<Rightarrow> Inl e
           | Inr (c1, reg_node_index) \<Rightarrow>
               (case AddChild_in c1 four_topologies packet_node_index reg_node_index of
                  Inl e \<Rightarrow> Inl e
                | Inr c2 \<Rightarrow>
                    reg_loop env mem submit_index va_addr packet_node_index c2 rest
                      (reg_addr + 1))))"

definition AppendRegNodes ::
  "Env \<Rightarrow> MemoryManager \<Rightarrow> Creator \<Rightarrow> 32 word \<Rightarrow> 64 word \<Rightarrow> 32 word \<Rightarrow> nat \<Rightarrow> error + Creator"
where
  "AppendRegNodes env mem c submit_index va_addr header packet_node_index =
     reg_loop env mem submit_index va_addr packet_node_index c
       [0..<unat (type4_count env header)] (type4_offset env header)"

text \<open>\<^verbatim>\<open>AddPacketNode\<close>. \<^verbatim>\<open>OnPacket\<close> passes \<open>is_ce_packet = false\<close> and calls it for type-4 and
  type-7 packets only; the last branch returns \<^verbatim>\<open>UINT32_MAX\<close>.\<close>

definition AddPacketNode ::
  "Env \<Rightarrow> MemoryManager \<Rightarrow> Creator \<Rightarrow> 32 word \<Rightarrow> 64 word \<Rightarrow> bool \<Rightarrow> Pm4Type \<Rightarrow> 32 word \<Rightarrow>
   error + (Creator \<times> nat)"
where
  "AddPacketNode env mem c submit_index va_addr is_ce_packet type header =
     (if type = kType7 then
        bindE (PacketNode va_addr (ucast (type7_opcode env header)) is_ce_packet) (\<lambda>aux_info.
        bindE (AddNode c kPacketNode
                 (GetOpCodeString env (type7_opcode env header) @ '' 0x'' @ show_hex (unat header))
                 aux_info) (\<lambda>(c1, packet_node_index).
        (case GetPacketInfo env (type7_opcode env header) of
           None \<Rightarrow> Inl AssertionFailure
         | Some packet_info \<Rightarrow>
             bindE (AppendPacketFieldNodes env mem c1 submit_index va_addr is_ce_packet header
                      packet_info packet_node_index (field_start_default env)
                      (field_last_default env)) (\<lambda>c2.
             Inr (c2, packet_node_index)))))
      else if type = kType4 then
        bindE (PacketNode va_addr (- 1) is_ce_packet) (\<lambda>aux_info.
        bindE (AddNode c kPacketNode (''TYPE4 REGWRITE'' @ '' 0x'' @ show_hex (unat header))
                 aux_info) (\<lambda>(c1, packet_node_index).
        bindE (AppendRegNodes env mem c1 submit_index va_addr header packet_node_index) (\<lambda>c2.
        Inr (c2, packet_node_index))))
      else Inr (c, 2 ^ 32 - 1))"

definition GetEventString :: "Env \<Rightarrow> 32 word \<Rightarrow> error + string" where
  "GetEventString env opcode =
     (if \<not> IsDrawDispatchEvent env opcode then Inl AssertionFailure
      else Inr (if opcode = CP_DRAW_INDX_OFFSET env then ''DrawIndexOffset''
                else if opcode = CP_DRAW_INDIRECT env then ''DrawIndirect''
                else if opcode = CP_DRAW_INDX_INDIRECT env then ''DrawIndexIndirect''
                else if opcode = CP_DRAW_INDIRECT_MULTI env then ''DrawIndirectMulti''
                else if opcode = CP_DRAW_AUTO env then ''DrawAuto''
                else ''''))"


subsection \<open>\<^verbatim>\<open>OnPacket\<close>\<close>

text \<open>\<^verbatim>\<open>AddSharedChild\<close> of every node of a list under one parent, in the given topologies
  (the loops over \<^verbatim>\<open>m_packets.m_packet_node_indices\<close>).\<close>

fun AddSharedChildren_of ::
  "Creator \<Rightarrow> TopologyType list \<Rightarrow> nat \<Rightarrow> nat list \<Rightarrow> error + Creator" where
  "AddSharedChildren_of c types parent [] = Inr c"
| "AddSharedChildren_of c types parent (cur_node_index # rest) =
     (case AddSharedChild_in c types parent cur_node_index of
        Inl e \<Rightarrow> Inl e
      | Inr c1 \<Rightarrow> AddSharedChildren_of c1 types parent rest)"

text \<open>\<^verbatim>\<open>AddSharedChild\<close> of one node under every entry of a marker stack.\<close>

fun AddSharedChild_each :: "Creator \<Rightarrow> TopologyType \<Rightarrow> nat list \<Rightarrow> nat \<Rightarrow> error + Creator" where
  "AddSharedChild_each c type [] child = Inr c"
| "AddSharedChild_each c type (it # rest) child =
     (case AddSharedChild c type it child of
        Inl e \<Rightarrow> Inl e
      | Inr c1 \<Rightarrow> AddSharedChild_each c1 type rest child)"

text \<open>The body of \<^verbatim>\<open>if ((sync_type != SyncType::kNone) || is_draw_dispatch_dma_event)\<close>.
  The sync branch is empty in the source, so the event node index stays \<^verbatim>\<open>UINT64_MAX\<close>
  there.\<close>

definition OnPacket_event ::
  "Env \<Rightarrow> Creator \<Rightarrow> 32 word \<Rightarrow> SyncType \<Rightarrow> bool \<Rightarrow> error + Creator" where
  "OnPacket_event env c opcode sync_type is_draw_dispatch_dma_event =
     (let parent0 = (if m_marker_stack c \<noteq> [] then last (m_marker_stack c)
                     else m_cur_submit_node_index c)
      in
      bindE (if sync_type \<noteq> kNone then Inr (c, UINT64_MAX)
             else if is_draw_dispatch_dma_event then
               bindE (GetEventString env opcode) (\<lambda>draw_dispatch_node_string.
               let event_id = m_num_events c
               in bindE (AddNode (c\<lparr>m_num_events := event_id + 1\<rparr>) kDrawDispatchDmaNode
                           draw_dispatch_node_string (EventNodeAux event_id))
                    (\<lambda>(c2, draw_dispatch_node_index).
                  Inr (AppendEventNodeIndex c2 draw_dispatch_node_index,
                       draw_dispatch_node_index)))
             else Inr (c, UINT64_MAX)) (\<lambda>(c3, event_node_index).
      let c4 = c3\<lparr>m_cmd_begin_event_node_indices :=
                     m_cmd_begin_event_node_indices c3 @ [event_node_index]\<rparr>
      in
      bindE (AddSharedChildren_of c4 [kAllEventTopology, kRgpTopology] event_node_index
               (m_packet_node_indices (m_packets c4))) (\<lambda>c5.
      bindE (AddChild (c5\<lparr>m_packets := Packets_Clear\<rparr>) kAllEventTopology parent0
               event_node_index) (\<lambda>c7.
      let c8 = c7\<lparr>m_node_parent_info := (m_node_parent_info c7)
                     (kAllEventTopology :=
                        (m_node_parent_info c7 kAllEventTopology)(event_node_index \<mapsto> parent0))\<rparr>;
          parent1 = (if m_internal_marker_stack c8 \<noteq> [] then last (m_internal_marker_stack c8)
                     else parent0)
      in
      bindE (AddChild c8 kRgpTopology parent1 event_node_index) (\<lambda>c9.
      Inr (c9\<lparr>m_node_parent_info := (m_node_parent_info c9)
                 (kRgpTopology :=
                    (m_node_parent_info c9 kRgpTopology)(event_node_index \<mapsto> parent1))\<rparr>))))))"

definition OnPacket ::
  "Env \<Rightarrow> MemoryManager \<Rightarrow> Creator \<Rightarrow> 32 word \<Rightarrow> 32 word \<Rightarrow> 64 word \<Rightarrow> Pm4Type \<Rightarrow> 32 word \<Rightarrow>
   error + Creator"
where
  "OnPacket env mem c submit_index ib_index va_addr type header =
     (if type \<noteq> kType4 \<and> type \<noteq> kType7 then Inr c
      else
        bindE (AddPacketNode env mem c submit_index va_addr False type header)
          (\<lambda>(c1, packet_node_index).
        bindE (AddSharedChild_in c1 four_topologies (m_cur_submit_node_index c1)
                 packet_node_index) (\<lambda>c2.
        if m_dcb_ib_stack c2 = [] then Inl OutOfBounds
        else
        bindE (AddSharedChild_in c2 [kEngineTopology, kSubmitTopology] (last (m_dcb_ib_stack c2))
                 packet_node_index) (\<lambda>c3.
        let opcode = (if type = kType7 then type7_opcode env header else - 1);
            c4 = c3\<lparr>m_packets := Packets_Add (m_packets c3) opcode va_addr packet_node_index,
                    m_cmd_begin_packet_node_indices :=
                      m_cmd_begin_packet_node_indices c3 @ [packet_node_index]\<rparr>;
            sync_type = GetSyncType env mem submit_index (m_packet_opcodes (m_packets c4))
                          (m_packet_addrs (m_packets c4));
            is_draw_dispatch_dma_event = IsDrawDispatchEvent env opcode
        in
        bindE (if sync_type \<noteq> kNone \<or> is_draw_dispatch_dma_event
               then OnPacket_event env c4 opcode sync_type is_draw_dispatch_dma_event
               else Inr c4) (\<lambda>c5.
        bindE (AddSharedChild_each c5 kAllEventTopology (m_marker_stack c5) packet_node_index)
          (\<lambda>c6.
        AddSharedChild_each c6 kRgpTopology (m_internal_marker_stack c6)
          packet_node_index))))))"

subsection \<open>\<^verbatim>\<open>OnSubmitStart\<close> and \<^verbatim>\<open>OnSubmitEnd\<close>\<close>

definition submit_description :: "Env \<Rightarrow> 32 word \<Rightarrow> SubmitInfo \<Rightarrow> string" where
  "submit_description env submit_index submit_info =
     ''Submit: '' @ show_dec (unat submit_index)
     @ '', Num IBs: '' @ show_dec (length (GetIndirectBufferInfo submit_info))
     @ '', Engine: '' @ kEngineTypeStrings env (GetEngineType submit_info)
     @ '', Queue: '' @ kQueueTypeStrings env (GetQueueType submit_info)
     @ '', Engine Index: '' @ show_dec (unat (GetEngineIndex submit_info))
     @ '', Dummy Submit: '' @ show_dec (if IsDummySubmit submit_info then 1 else 0)"

definition OnSubmitStart :: "Env \<Rightarrow> Creator \<Rightarrow> 32 word \<Rightarrow> SubmitInfo \<Rightarrow> error + Creator" where
  "OnSubmitStart env c submit_index submit_info =
     bindE (AddNode c kSubmitNode (submit_description env submit_index submit_info)
              (SubmitNodeAux (GetEngineType submit_info) submit_index)) (\<lambda>(c1, submit_node_index).
     bindE (GetChildNodeIndex_pending c1 kEngineTopology kRootNodeIndex
              (GetEngineType submit_info)) (\<lambda>engine_node_index.
     bindE (AddChild c1 kEngineTopology engine_node_index submit_node_index) (\<lambda>c2.
     bindE (AddChild_in c2 [kSubmitTopology, kAllEventTopology, kRgpTopology] kRootNodeIndex
              submit_node_index) (\<lambda>c3.
     Inr (c3\<lparr>m_cur_submit_node_index := submit_node_index,
             m_cur_engine_index := GetEngineIndex submit_info\<rparr>)))))"

text \<open>The call of \<^verbatim>\<open>std::sort\<close> in \<^verbatim>\<open>OnSubmitEnd\<close>. The comparator reads
  \<^verbatim>\<open>GetIbNodeIndex\<close> of both arguments, which asserts that they are Ib nodes; on fewer than
  two elements \<^verbatim>\<open>std::sort\<close> compares nothing and moves nothing.\<close>

fun first_error :: "(error + 'a) list \<Rightarrow> error option" where
  "first_error [] = None"
| "first_error (Inl e # rs) = Some e"
| "first_error (Inr x # rs) = first_error rs"

definition ib_index_key :: "Nodes \<Rightarrow> nat \<Rightarrow> 8 word" where
  "ib_index_key ns node = (case GetIbNodeIndex ns node of Inr ix \<Rightarrow> ix | Inl e \<Rightarrow> 0)"

definition sort_submit_children :: "Env \<Rightarrow> Nodes \<Rightarrow> nat list \<Rightarrow> error + nat list" where
  "sort_submit_children env ns submit_children =
     (if length submit_children < 2 then Inr submit_children
      else (case first_error (map (GetIbNodeIndex ns) submit_children) of
              Some e \<Rightarrow> Inl e
            | None \<Rightarrow>
                Inr (std_sort env (\<lambda>lhs rhs. ib_index_key ns lhs < ib_index_key ns rhs)
                       submit_children)))"

definition present_description :: "Env \<Rightarrow> nat \<Rightarrow> PresentInfo \<Rightarrow> error + string" where
  "present_description env i present_info =
     (if HasValidData present_info then
        (case GetVkFormatString env (GetSurfaceVkFormat present_info) of
           None \<Rightarrow> Inl AssertionFailure
         | Some format_string \<Rightarrow>
             (case GetVkColorSpaceKhrString env (GetSurfaceVkColorSpaceKHR present_info) of
                None \<Rightarrow> Inl AssertionFailure
              | Some color_space_string \<Rightarrow>
                  Inr (''Present: '' @ show_dec i
                       @ '', FullScreen: '' @ show_dec (if IsFullScreen present_info then 1 else 0)
                       @ '', Engine: '' @ kEngineTypeStrings env (present_engine_type present_info)
                       @ '', Queue: '' @ kQueueTypeStrings env (present_queue_type present_info)
                       @ '', SurfaceAddr: 0x'' @ show_hex (unat (GetSurfaceAddr present_info))
                       @ '', SurfaceSize: '' @ show_dec (unat (GetSurfaceSize present_info))
                       @ '', VkFormat: '' @ format_string
                       @ '', VkColorSpaceKHR: '' @ color_space_string)))
      else Inr (''Present: '' @ show_dec i))"

fun present_loop ::
  "Env \<Rightarrow> 32 word \<Rightarrow> PresentInfo list \<Rightarrow> Creator \<Rightarrow> nat list \<Rightarrow> error + Creator" where
  "present_loop env submit_index presents c [] = Inr c"
| "present_loop env submit_index presents c (i # rest) =
     (if \<not> i < length presents then Inl OutOfBounds
      else if submit_index \<noteq> GetSubmitIndex (presents ! i)
        then present_loop env submit_index presents c rest
      else
        (case present_description env i (presents ! i) of
           Inl e \<Rightarrow> Inl e
         | Inr desc \<Rightarrow>
             (case AddNode c kPresentNode desc (AuxRaw 0) of
                Inl e \<Rightarrow> Inl e
              | Inr (c1, present_node_index) \<Rightarrow>
                  (case AddChild_in c1 [kAllEventTopology, kRgpTopology] kRootNodeIndex
                          present_node_index of
                     Inl e \<Rightarrow> Inl e
                   | Inr c2 \<Rightarrow> present_loop env submit_index presents c2 rest))))"

text \<open>The block of \<^verbatim>\<open>OnSubmitEnd\<close> under \<^verbatim>\<open>if (!m_packets.m_packet_node_indices.empty())\<close>.\<close>

definition add_postamble_state :: "Creator \<Rightarrow> error + Creator" where
  "add_postamble_state c =
     bindE (GetChildCount c kAllEventTopology (m_cur_submit_node_index c)) (\<lambda>child_count.
     bindE (AddNode c kPostambleStateNode
              (if child_count \<noteq> 0 then ''State'' else ''Postamble State'') (AuxRaw 0))
       (\<lambda>(c2, postamble_state_node_index).
     bindE (AddSharedChildren_of c2 [kAllEventTopology, kRgpTopology]
              postamble_state_node_index (m_packet_node_indices (m_packets c2))) (\<lambda>c3.
     bindE (AddChild (c3\<lparr>m_packets := Packets_Clear\<rparr>) kAllEventTopology
              (m_cur_submit_node_index c3) postamble_state_node_index) (\<lambda>c5.
     AddChild c5 kRgpTopology (m_cur_submit_node_index c5) postamble_state_node_index))))"

definition OnSubmitEnd :: "Env \<Rightarrow> Creator \<Rightarrow> 32 word \<Rightarrow> SubmitInfo \<Rightarrow> error + Creator" where
  "OnSubmitEnd env c submit_index submit_info =
     (if \<not> m_cur_submit_node_index c < length (m_node_children_0 c kSubmitTopology)
      then Inl OutOfBounds
      else
        bindE (sort_submit_children env (nodes_of c)
                 (m_node_children_0 c kSubmitTopology ! m_cur_submit_node_index c))
          (\<lambda>submit_children.
        let c1 = c\<lparr>m_node_children_0 := (m_node_children_0 c)
                      (kSubmitTopology := (m_node_children_0 c kSubmitTopology)
                         [m_cur_submit_node_index c := submit_children]),
                   m_marker_stack := [], m_internal_marker_stack := []\<rparr>
        in
        bindE (if m_packet_node_indices (m_packets c1) \<noteq> [] then add_postamble_state c1
               else Inr c1) (\<lambda>c6.
        bindE (case m_capture_data_ptr c6 of
                 None \<Rightarrow> Inr c6
               | Some capture_data \<Rightarrow>
                   present_loop env submit_index (GetPresentInfo capture_data) c6
                     [0..<length (GetPresentInfo capture_data)]) (\<lambda>c7.
        Inr (c7\<lparr>m_cur_submit_node_index := UINT64_MAX, m_ccb_ib_stack := [],
                m_dcb_ib_stack := []\<rparr>)))))"

subsection \<open>\<^verbatim>\<open>CreateTopologies\<close>\<close>

definition FilterOut :: "Nodes \<Rightarrow> nat \<Rightarrow> error + bool" where
  "FilterOut ns node_index =
     bindE (GetNodeType ns node_index) (\<lambda>type.
     if type = kDrawDispatchDmaNode \<or> type = kSyncNode \<or> type = kPostambleStateNode
     then Inr True
     else if type = kMarkerNode then
       bindE (GetMarkerNodeType ns node_index) (\<lambda>marker_type.
       if marker_type = kBarrier then Inr True else Inr False)
     else Inr False)"

definition vulkan_event_ids :: "VKCmdID list" where
  "vulkan_event_ids =
     [vkCmdDrawCmdID, vkCmdDrawIndexedCmdID, vkCmdDrawIndirectCmdID,
      vkCmdDrawIndexedIndirectCmdID, vkCmdDispatchCmdID, vkCmdDispatchIndirectCmdID,
      vkCmdDrawIndirectCountAMDCmdID, vkCmdDrawIndexedIndirectCountAMDCmdID,
      vkCmdDispatchBaseKHRCmdID, vkCmdDispatchBaseCmdID, vkCmdDrawIndirectCountKHRCmdID,
      vkCmdDrawIndexedIndirectCountKHRCmdID, vkCmdPipelineBarrierCmdID,
      vkCmdBeginRenderPassCmdID, vkCmdEndRenderPassCmdID, vkCmdClearAttachmentsCmdID,
      vkCmdClearColorImageCmdID, vkCmdClearDepthStencilImageCmdID, vkCmdFillBufferCmdID,
      vkCmdCopyImageCmdID, vkCmdCopyBufferToImageCmdID, vkCmdCopyBufferCmdID,
      vkCmdCopyImageToBufferCmdID, vkCmdResetQueryPoolCmdID, vkCmdCopyQueryPoolResultsCmdID,
      vkCmdExecuteCommandsCmdID, vkQueueSubmit]"

definition IsVulkanEvent :: "Env \<Rightarrow> 32 word \<Rightarrow> bool" where
  "IsVulkanEvent env cmd_id = (cmd_id \<in> set (map (VKCmdID_value env) vulkan_event_ids))"

definition EventNodeHelper :: "Nodes \<Rightarrow> nat \<Rightarrow> (32 word \<Rightarrow> bool) \<Rightarrow> error + bool" where
  "EventNodeHelper ns node_index callback =
     bindE (GetNodeType ns node_index) (\<lambda>node_type.
     if node_type = kMarkerNode then
       bindE (GetMarkerNodeType ns node_index) (\<lambda>type.
       if type = kDiveMetadata
       then bindE (GetMarkerNodeId ns node_index) (\<lambda>ident. Inr (callback ident))
       else Inr False)
     else Inr False)"

definition IsVulkanEventNode :: "Env \<Rightarrow> Nodes \<Rightarrow> nat \<Rightarrow> error + bool" where
  "IsVulkanEventNode env ns node_index = EventNodeHelper ns node_index (IsVulkanEvent env)"

definition IsVulkanNonEventNode :: "Env \<Rightarrow> Nodes \<Rightarrow> nat \<Rightarrow> error + bool" where
  "IsVulkanNonEventNode env ns node_index = EventNodeHelper ns node_index (IsNonVulkanEvent env)"

text \<open>First pass, inner loop: the primary children that are not filtered out.\<close>

fun vulkan_call_children :: "Creator \<Rightarrow> nat \<Rightarrow> nat list \<Rightarrow> error + Creator" where
  "vulkan_call_children c node_index [] = Inr c"
| "vulkan_call_children c node_index (child # rest) =
     (case FilterOut (nodes_of c) child of
        Inl e \<Rightarrow> Inl e
      | Inr filtered \<Rightarrow>
          if \<not> filtered then
            (case AddChild c kVulkanCallTopology node_index child of
               Inl e \<Rightarrow> Inl e
             | Inr c1 \<Rightarrow> vulkan_call_children c1 node_index rest)
          else vulkan_call_children c node_index rest)"

text \<open>First pass, outer loop over the node indices.\<close>

fun vulkan_call_loop :: "Creator \<Rightarrow> nat list \<Rightarrow> error + Creator" where
  "vulkan_call_loop c [] = Inr c"
| "vulkan_call_loop c (node_index # rest) =
     (if \<not> node_index < length (m_node_children_0 c kVulkanCallTopology) then Inl OutOfBounds
      else if m_node_children_0 c kVulkanCallTopology ! node_index \<noteq> [] then Inl AssertionFailure
      else if \<not> node_index < length (m_node_children_1 c kVulkanCallTopology)
        then Inl OutOfBounds
      else if m_node_children_1 c kVulkanCallTopology ! node_index \<noteq> [] then Inl AssertionFailure
      else
        (case FilterOut (nodes_of c) node_index of
           Inl e \<Rightarrow> Inl e
         | Inr filtered \<Rightarrow>
             if filtered then vulkan_call_loop c rest
             else
               (case vulkan_call_children c node_index
                       (m_node_children_0 c kAllEventTopology ! node_index) of
                  Inl e \<Rightarrow> Inl e
                | Inr c1 \<Rightarrow>
                    vulkan_call_loop
                      (c1\<lparr>m_node_children_1 := (m_node_children_1 c1)
                            (kVulkanCallTopology := (m_node_children_1 c1 kVulkanCallTopology)
                               [node_index := m_node_children_1 c1 kAllEventTopology ! node_index])\<rparr>)
                      rest)))"

text \<open>Second pass, inner loop, with the accumulator \<open>acc_shared\<close>.\<close>

fun vulkan_event_children ::
  "Env \<Rightarrow> Creator \<Rightarrow> nat \<Rightarrow> nat list \<Rightarrow> nat list \<Rightarrow> error + Creator" where
  "vulkan_event_children env c node_index [] acc_shared = Inr c"
| "vulkan_event_children env c node_index (child_index # rest) acc_shared =
     (if \<not> child_index < length (m_node_children_1 c kVulkanCallTopology) then Inl OutOfBounds
      else
        let shared = m_node_children_1 c kVulkanCallTopology ! child_index;
            acc1 = acc_shared @ shared
        in
        (case IsVulkanNonEventNode env (nodes_of c) child_index of
           Inl e \<Rightarrow> Inl e
         | Inr non_event \<Rightarrow>
             if \<not> non_event then
               (case IsVulkanEventNode env (nodes_of c) child_index of
                  Inl e \<Rightarrow> Inl e
                | Inr is_event \<Rightarrow>
                    let acc2 = (if \<not> is_event then [] else acc1)
                    in
                    (case AddChild c kVulkanEventTopology node_index child_index of
                       Inl e \<Rightarrow> Inl e
                     | Inr c1 \<Rightarrow>
                         if \<not> child_index < length (m_node_children_1 c1 kVulkanEventTopology)
                         then Inl OutOfBounds
                         else
                           vulkan_event_children env
                             (c1\<lparr>m_node_children_1 := (m_node_children_1 c1)
                                   (kVulkanEventTopology :=
                                      (m_node_children_1 c1 kVulkanEventTopology)
                                        [child_index := (if acc2 = [] then shared else acc2)])\<rparr>)
                             node_index rest []))
             else vulkan_event_children env c node_index rest acc1))"

fun vulkan_event_loop :: "Env \<Rightarrow> Creator \<Rightarrow> nat list \<Rightarrow> error + Creator" where
  "vulkan_event_loop env c [] = Inr c"
| "vulkan_event_loop env c (node_index # rest) =
     (case IsVulkanNonEventNode env (nodes_of c) node_index of
        Inl e \<Rightarrow> Inl e
      | Inr non_event \<Rightarrow>
          if non_event then vulkan_event_loop env c rest
          else
            (case vulkan_event_children env c node_index
                    (m_node_children_0 c kVulkanCallTopology ! node_index) [] of
               Inl e \<Rightarrow> Inl e
             | Inr c1 \<Rightarrow> vulkan_event_loop env c1 rest))"

text \<open>Third pass: every topology of the hierarchy is built from its pending tables.\<close>

fun convert_topologies :: "Creator \<Rightarrow> TopologyType list \<Rightarrow> error + Creator" where
  "convert_topologies c [] = Inr c"
| "convert_topologies c (topology # rest) =
     (case build_topology (m_topology (m_command_hierarchy c) topology)
             (m_node_children_0 c topology) (m_node_children_1 c topology) of
        Inl e \<Rightarrow> Inl e
      | Inr cur_topology \<Rightarrow>
          convert_topologies
            (c\<lparr>m_command_hierarchy := (m_command_hierarchy c)
                  \<lparr>m_topology := (m_topology (m_command_hierarchy c))
                                    (topology := cur_topology)\<rparr>\<rparr>)
            rest)"

definition CreateTopologies :: "Env \<Rightarrow> Creator \<Rightarrow> error + Creator" where
  "CreateTopologies env c =
     (if length (m_node_children_0 c kAllEventTopology) \<noteq>
         length (m_node_children_1 c kAllEventTopology) then Inl AssertionFailure
      else
        bindE (vulkan_call_loop c [0..<length (m_node_children_0 c kAllEventTopology)]) (\<lambda>c1.
        if length (m_node_children_0 c1 kVulkanCallTopology) \<noteq>
           length (m_node_children_1 c1 kVulkanCallTopology) then Inl AssertionFailure
        else
          bindE (vulkan_event_loop env c1
                   [0..<length (m_node_children_0 c1 kVulkanCallTopology)]) (\<lambda>c2.
          convert_topologies c2 all_topologies)))"

subsection \<open>\<^verbatim>\<open>CreateTrees\<close>\<close>

text \<open>The callbacks that the emulator makes, delivered in order. Every callback of this file
  returns \<^verbatim>\<open>true\<close>, so the emulator is never asked to stop.\<close>

fun deliver :: "Env \<Rightarrow> MemoryManager \<Rightarrow> 32 word \<Rightarrow> Creator \<Rightarrow> emu_callback \<Rightarrow> error + Creator" where
  "deliver env mem submit_index c (IbStart ib_index ib_info type) =
     OnIbStart env c submit_index ib_index ib_info type"
| "deliver env mem submit_index c (Packet ib_index va_addr type header) =
     OnPacket env mem c submit_index ib_index va_addr type header"
| "deliver env mem submit_index c (IbEnd ib_index ib_info) =
     OnIbEnd env c submit_index ib_index ib_info"

fun run_callbacks ::
  "Env \<Rightarrow> MemoryManager \<Rightarrow> 32 word \<Rightarrow> Creator \<Rightarrow> emu_callback list \<Rightarrow> error + Creator" where
  "run_callbacks env mem submit_index c [] = Inr c"
| "run_callbacks env mem submit_index c (cb # rest) =
     (case deliver env mem submit_index c cb of
        Inl e \<Rightarrow> Inl e
      | Inr c1 \<Rightarrow> run_callbacks env mem submit_index c1 rest)"

text \<open>The loop that adds one engine node per engine type.\<close>

fun engine_loop :: "Env \<Rightarrow> Creator \<Rightarrow> nat list \<Rightarrow> error + Creator" where
  "engine_loop env c [] = Inr c"
| "engine_loop env c (engine_type # rest) =
     (case AddNode c kEngineNode (kEngineTypeStrings env engine_type) (AuxRaw 0) of
        Inl e \<Rightarrow> Inl e
      | Inr (c1, node_index) \<Rightarrow>
          (case AddChild c1 kEngineTopology kRootNodeIndex node_index of
             Inl e \<Rightarrow> Inl e
           | Inr c2 \<Rightarrow> engine_loop env c2 rest))"

text \<open>The loop over the submits. The second component of the result is \<open>False\<close> when the
  emulator fails and \<^verbatim>\<open>CreateTrees\<close> returns \<^verbatim>\<open>false\<close> from inside the loop.\<close>

fun submit_loop :: "Env \<Rightarrow> CaptureData \<Rightarrow> Creator \<Rightarrow> nat list \<Rightarrow> error + (Creator \<times> bool)" where
  "submit_loop env capture_data c [] = Inr (c, True)"
| "submit_loop env capture_data c (i # rest) =
     (if \<not> i < length (GetSubmitInfo capture_data) then Inl OutOfBounds
      else
        let submit_info = GetSubmitInfo capture_data ! i; submit_index = of_nat i
        in
        (case OnSubmitStart env c submit_index submit_info of
           Inl e \<Rightarrow> Inl e
         | Inr c1 \<Rightarrow>
             if IsDummySubmit submit_info \<or>
                (GetEngineType submit_info \<noteq> kUniversal \<and> GetEngineType submit_info \<noteq> kCompute \<and>
                 GetEngineType submit_info \<noteq> kDma)
             then
               (case OnSubmitEnd env c1 submit_index submit_info of
                  Inl e \<Rightarrow> Inl e
                | Inr c2 \<Rightarrow> submit_loop env capture_data c2 rest)
             else
               (case ExecuteSubmit env (GetMemoryManager capture_data) submit_index
                       (GetIndirectBufferInfo submit_info) of
                  (callbacks, ok) \<Rightarrow>
                    (case run_callbacks env (GetMemoryManager capture_data) submit_index c1
                            callbacks of
                       Inl e \<Rightarrow> Inl e
                     | Inr c2 \<Rightarrow>
                         if \<not> ok then Inr (c2, False)
                         else
                           (case OnSubmitEnd env c2 submit_index submit_info of
                              Inl e \<Rightarrow> Inl e
                            | Inr c3 \<Rightarrow> submit_loop env capture_data c3 rest)))))"

definition CreateTrees :: "Env \<Rightarrow> Creator \<Rightarrow> CaptureData \<Rightarrow> bool \<Rightarrow> error + (Creator \<times> bool)" where
  "CreateTrees env c capture_data flatten_chain_nodes =
     (let c0 = c\<lparr>m_capture_data_ptr := Some capture_data,
                 m_command_hierarchy := new_CommandHierarchy\<rparr>
      in
      bindE (AddNode c0 kRootNode '''' (AuxRaw 0)) (\<lambda>(c1, root_node_index).
      if root_node_index \<noteq> kRootNodeIndex then Inl AssertionFailure
      else
        bindE (engine_loop env c1 [0..<kEngineTypeCount env]) (\<lambda>c2.
        let c3 = c2\<lparr>m_num_events := 0, m_cur_submit_node_index := UINT64_MAX,
                    m_dcb_ib_stack := [], m_ccb_ib_stack := [],
                    m_flatten_chain_nodes := flatten_chain_nodes\<rparr>
        in
        bindE (submit_loop env capture_data c3 [0..<length (GetSubmitInfo capture_data)])
          (\<lambda>(c4, ok).
        if \<not> ok then Inr (c4, False)
        else
          let c5 = c4\<lparr>m_command_hierarchy := (m_command_hierarchy c4)
                        \<lparr>m_metadata_version := GetVulkanMetadataVersion capture_data\<rparr>\<rparr>
          in bindE (CreateTopologies env c5) (\<lambda>c6. Inr (c6, True))))))"

subsection \<open>Predicates used in the proofs\<close>

text \<open>\<open>grows c c'\<close>: the node store of \<open>c'\<close> extends the one of \<open>c\<close> by new nodes only, with the
  same event index list, the same IB stack, the same topologies of the hierarchy and the same
  flag \<^verbatim>\<open>m_has_unended_vulkan_marker\<close>. \<open>store_ext c c'\<close>: the node store is extended, the
  event index list is extended by indices of new nodes, in increasing order, and the topologies
  of the hierarchy are the same.\<close>

definition grows :: "Creator \<Rightarrow> Creator \<Rightarrow> bool" where
  "grows c c' =
     (prefix (m_node_type (nodes_of c)) (m_node_type (nodes_of c')) \<and>
      prefix (m_aux_info (nodes_of c)) (m_aux_info (nodes_of c')) \<and>
      m_event_node_indices (nodes_of c') = m_event_node_indices (nodes_of c) \<and>
      m_dcb_ib_stack c' = m_dcb_ib_stack c \<and>
      m_topology (m_command_hierarchy c') = m_topology (m_command_hierarchy c) \<and>
      m_has_unended_vulkan_marker c' = m_has_unended_vulkan_marker c)"

definition store_ext :: "Creator \<Rightarrow> Creator \<Rightarrow> bool" where
  "store_ext c c' =
     (prefix (m_node_type (nodes_of c)) (m_node_type (nodes_of c')) \<and>
      prefix (m_aux_info (nodes_of c)) (m_aux_info (nodes_of c')) \<and>
      (\<exists>new. m_event_node_indices (nodes_of c') = m_event_node_indices (nodes_of c) @ new \<and>
             sorted_wrt (<) new \<and>
             (\<forall>e \<in> set new. length (m_node_type (nodes_of c)) \<le> e \<and>
                             e < length (m_node_type (nodes_of c')))) \<and>
      m_topology (m_command_hierarchy c') = m_topology (m_command_hierarchy c))"

definition ev_inv :: "Nodes \<Rightarrow> bool" where
  "ev_inv ns =
     (sorted_wrt (<) (m_event_node_indices ns) \<and>
      (\<forall>e \<in> set (m_event_node_indices ns). e < length (m_node_type ns)))"

text \<open>The tables are in step with the node store: what the assertions of \<^verbatim>\<open>AddNode\<close>
  check.\<close>

definition creator_wf :: "Creator \<Rightarrow> bool" where
  "creator_wf c =
     (length (m_description (nodes_of c)) = length (m_node_type (nodes_of c)) \<and>
      length (m_aux_info (nodes_of c)) = length (m_node_type (nodes_of c)) \<and>
      length (m_metadata (nodes_of c)) = length (m_node_type (nodes_of c)) \<and>
      (\<forall>t \<in> set all_topologies.
         length (m_node_children_0 c t) = length (m_node_type (nodes_of c)) \<and>
         length (m_node_children_1 c t) = length (m_node_type (nodes_of c))))"

text \<open>The number of \<^verbatim>\<open>on_ib_start\<close> callbacks of non-Chain IBs that no \<^verbatim>\<open>on_ib_end\<close> has
  answered yet, after a callback sequence that starts with \<open>d\<close> of them; \<open>None\<close> when some
  \<^verbatim>\<open>on_ib_end\<close> of the sequence is not preceded by such a start.\<close>

fun depth_after :: "nat \<Rightarrow> emu_callback list \<Rightarrow> nat option" where
  "depth_after d [] = Some d"
| "depth_after d (IbStart ib_index ib_info type # rest) =
     depth_after (if type = kChain then d else d + 1) rest"
| "depth_after d (Packet ib_index va_addr type header # rest) = depth_after d rest"
| "depth_after d (IbEnd ib_index ib_info # rest) =
     (if d = 0 then None else depth_after (d - 1) rest)"

text \<open>Every entry of the stack is an Ib node, and \<open>d\<close> entries are not of type Chain.\<close>

definition ib_stack_ok :: "Nodes \<Rightarrow> nat list \<Rightarrow> nat \<Rightarrow> bool" where
  "ib_stack_ok ns stack d =
     ((\<forall>y \<in> set stack. \<exists>t. GetIbNodeType ns y = Inr t) \<and>
      length (filter (\<lambda>y. GetIbNodeType ns y \<noteq> Inr (Some kChain)) stack) = d)"

text \<open>\<open>packet_ext c c'\<close>: as \<open>store_ext\<close>, and the IB stack and the flag
  \<^verbatim>\<open>m_has_unended_vulkan_marker\<close> are the same.\<close>

definition packet_ext :: "Creator \<Rightarrow> Creator \<Rightarrow> bool" where
  "packet_ext c c' =
     (store_ext c c' \<and> m_dcb_ib_stack c' = m_dcb_ib_stack c \<and>
      m_has_unended_vulkan_marker c' = m_has_unended_vulkan_marker c)"


subsection \<open>Example inputs\<close>

text \<open>A four-node tree built by the construction operations: the root has the children 1 and 2,
  node 1 has the child 3.\<close>

definition example_topology :: Topology where
  "example_topology =
     (case build_topology empty_Topology [[1, 2], [3], [], []] [[], [], [], []] of
        Inr T \<Rightarrow> T | Inl e \<Rightarrow> empty_Topology)"

text \<open>The callbacks that the emulator makes for one IB of three type-7 packets without
  payload: a \<^verbatim>\<open>CP_NOP\<close>, a \<^verbatim>\<open>CP_DRAW_INDX_OFFSET\<close> and a second \<^verbatim>\<open>CP_NOP\<close>.\<close>

definition example_ib :: IndirectBufferInfo where
  "example_ib = IndirectBufferInfo 0x1000 3 False"

definition example_stream :: "emu_callback list" where
  "example_stream =
     [IbStart 0 example_ib kNormal,
      Packet 0 0x1000 kType7 0x70100000,
      Packet 0 0x1004 kType7 0x70380000,
      Packet 0 0x1008 kType7 0x70100000,
      IbEnd 0 example_ib]"

text \<open>An environment: three engine types, a catalog whose packets have no fields, the
  type-7 header layout and the draw opcodes of the a6xx PM4 packets, a stable sort, and an
  emulator that decodes \<open>example_stream\<close> from every submit.\<close>

fun insort_by :: "(nat \<Rightarrow> nat \<Rightarrow> bool) \<Rightarrow> nat \<Rightarrow> nat list \<Rightarrow> nat list" where
  "insort_by lt x [] = [x]"
| "insort_by lt x (y # ys) = (if lt y x then y # insort_by lt x ys else x # y # ys)"

definition example_env :: Env where
  "example_env =
     \<lparr>kMaxNumIbsBits = 8, kEngineTypeCount = 3,
      kEngineTypeStrings = (\<lambda>i. if i = 0 then ''Universal'' else if i = 1 then ''Compute''
                                 else ''Dma''),
      kQueueTypeStrings = (\<lambda>i. ''Universal''),
      GetOpCodeString = (\<lambda>opcode. if opcode = 0x38 then ''CP_DRAW_INDX_OFFSET''
                                      else ''CP_NOP''),
      GetPacketInfo = (\<lambda>opcode. Some (PacketInfo [])), GetRegInfo = (\<lambda>reg. None),
      GetEnumString = (\<lambda>handle v. None),
      GetVkFormatString = (\<lambda>f. None), GetVkColorSpaceKhrString = (\<lambda>f. None),
      type7_opcode = (\<lambda>header. drop_bit 16 header AND 0x7F),
      type7_count = (\<lambda>header. header AND 0x3FFF),
      type4_offset = (\<lambda>header. drop_bit 8 header AND 0x3FFFF),
      type4_count = (\<lambda>header. header AND 0x7F),
      CP_NOP = 0x10, CP_DRAW_INDX_OFFSET = 0x38, CP_DRAW_INDIRECT = 0x28,
      CP_DRAW_INDX_INDIRECT = 0x29, CP_DRAW_INDIRECT_MULTI = 0x2A, CP_DRAW_AUTO = 0x24,
      VKCmdID_value = (\<lambda>ident. 0),
      field_start_default = 0, field_last_default = UINT64_MAX,
      GetSyncType = (\<lambda>mem submit_index opcodes addrs. kNone),
      IsNonVulkanEvent = (\<lambda>ident. False),
      std_sort = (\<lambda>lt xs. foldr (insort_by lt) xs []),
      ExecuteSubmit = (\<lambda>mem submit_index ibs. (example_stream, True))\<rparr>"

definition example_mem :: MemoryManager where
  "example_mem = (\<lambda>submit_index addr. None)"

text \<open>A builder in the middle of a submit: the root and the submit node, no IB started.\<close>

definition example_submit_state :: Creator where
  "example_submit_state =
     \<lparr>m_command_hierarchy =
        \<lparr>m_nodes = \<lparr>m_node_type = [kRootNode, kSubmitNode],
                     m_description = ['''', ''Submit''],
                     m_aux_info = [AuxRaw 0, SubmitNodeAux 0 0],
                     m_metadata = [[], []], m_event_node_indices = []\<rparr>,
         m_topology = (\<lambda>t. empty_Topology), m_metadata_version = 0\<rparr>,
      m_capture_data_ptr = None,
      m_node_children_0 = (\<lambda>t. [[1], []]), m_node_children_1 = (\<lambda>t. [[], []]),
      m_node_parent_info = (\<lambda>t n. None), m_num_events = 0,
      m_cur_submit_node_index = 1, m_cur_engine_index = 0,
      m_dcb_ib_stack = [], m_ccb_ib_stack = [], m_flatten_chain_nodes = False,
      m_packets = Packets_Clear,
      m_cmd_begin_packet_node_indices = [], m_cmd_begin_event_node_indices = [],
      m_marker_stack = [], m_internal_marker_stack = [],
      m_has_unended_vulkan_marker = False, m_cur_vulkan_cmd_id = 0,
      m_is_secondary_cmdbuf_started = False\<rparr>"

text \<open>The callbacks of an IB that chains to a second one.\<close>

definition example_callbacks :: "emu_callback list" where
  "example_callbacks = [IbStart 0 example_ib kNormal, IbStart 1 example_ib kChain]"

text \<open>A builder with \<open>flatten_chain_nodes\<close> set, after these two callbacks: node 2 is the
  IB, node 3 the Chain IB, both on the IB stack.\<close>

definition example_chain_state :: Creator where
  "example_chain_state =
     \<lparr>m_command_hierarchy =
        \<lparr>m_nodes = \<lparr>m_node_type = [kRootNode, kSubmitNode, kIbNode, kIbNode],
                     m_description = ['''', ''Submit'', ''IB'', ''Chain IB''],
                     m_aux_info = [AuxRaw 0, SubmitNodeAux 0 0, IbNodeAux 0 0 16 1,
                                   IbNodeAux 2 1 16 1],
                     m_metadata = [[], [], [], []], m_event_node_indices = []\<rparr>,
         m_topology = (\<lambda>t. empty_Topology), m_metadata_version = 0\<rparr>,
      m_capture_data_ptr = None,
      m_node_children_0 =
        (\<lambda>t. if t = kEngineTopology \<or> t = kSubmitTopology then [[1], [2], [3], []]
             else [[1], [], [], []]),
      m_node_children_1 = (\<lambda>t. [[], [], [], []]),
      m_node_parent_info = (\<lambda>t n. None), m_num_events = 0,
      m_cur_submit_node_index = 1, m_cur_engine_index = 0,
      m_dcb_ib_stack = [2, 3], m_ccb_ib_stack = [], m_flatten_chain_nodes = True,
      m_packets = Packets_Clear,
      m_cmd_begin_packet_node_indices = [], m_cmd_begin_event_node_indices = [],
      m_marker_stack = [], m_internal_marker_stack = [],
      m_has_unended_vulkan_marker = False, m_cur_vulkan_cmd_id = 0,
      m_is_secondary_cmdbuf_started = False\<rparr>"

text \<open>A builder that has built nothing yet, a capture without submits, and a capture with
  one submit of one IB on the universal engine.\<close>

definition example_creator :: Creator where
  "example_creator =
     \<lparr>m_command_hierarchy = new_CommandHierarchy, m_capture_data_ptr = None,
      m_node_children_0 = (\<lambda>t. []), m_node_children_1 = (\<lambda>t. []),
      m_node_parent_info = (\<lambda>t n. None), m_num_events = 0,
      m_cur_submit_node_index = UINT64_MAX, m_cur_engine_index = 0,
      m_dcb_ib_stack = [], m_ccb_ib_stack = [], m_flatten_chain_nodes = False,
      m_packets = Packets_Clear,
      m_cmd_begin_packet_node_indices = [], m_cmd_begin_event_node_indices = [],
      m_marker_stack = [], m_internal_marker_stack = [],
      m_has_unended_vulkan_marker = False, m_cur_vulkan_cmd_id = 0,
      m_is_secondary_cmdbuf_started = False\<rparr>"

definition empty_capture :: CaptureData where
  "empty_capture =
     \<lparr>GetSubmitInfo = [], GetPresentInfo = [], GetMemoryManager = example_mem,
      GetVulkanMetadataVersion = 0\<rparr>"

definition example_capture :: CaptureData where
  "example_capture =
     \<lparr>GetSubmitInfo =
        [\<lparr>GetEngineType = kUniversal, GetQueueType = 0, GetEngineIndex = 0,
          IsDummySubmit = False, GetIndirectBufferInfo = [example_ib]\<rparr>],
      GetPresentInfo = [], GetMemoryManager = example_mem, GetVulkanMetadataVersion = 0\<rparr>"






section \<open>Round trip of the Ib aux encoding\<close>

lemma IbType_roundtrip: "IbType_of_u8 (IbType_to_u8 t) = Some t"
  by (cases t) (simp_all add: IbType_of_u8_def)

lemma Nodes_AddNode_Inr:
  assumes "Nodes_AddNode ns type desc aux None 0 = Inr (ns', n)"
  shows "n = length (m_node_type ns) \<and> n < length (m_aux_info ns') \<and>
         n < length (m_node_type ns') \<and> m_node_type ns' ! n = type \<and>
         m_aux_info ns' ! n = aux \<and> m_description ns' ! n = desc"
  using assms by (auto simp: Nodes_AddNode_def nth_append split: if_splits)

lemma ib_index_fits:
  fixes ib_index :: "32 word"
  assumes "k \<le> 8" and "unat ib_index < 2 ^ k"
  shows "ib_index AND (push_bit k 1 - 1) = ib_index"
    and "unat (ucast ib_index :: 8 word) = unat ib_index"
proof -
  have m: "(push_bit k 1 - 1 :: 32 word) = mask k"
    by (simp add: mask_eq_exp_minus_1 push_bit_eq_mult)
  have "uint ib_index < 2 ^ k"
    using assms(2) by (metis of_nat_less_iff of_nat_numeral of_nat_power uint_nat)
  then show "ib_index AND (push_bit k 1 - 1) = ib_index"
    unfolding m by (simp add: mask_eq_iff)
  have "(2::nat) ^ k \<le> 2 ^ 8"
    using assms(1) by (intro power_increasing) simp_all
  then have "unat ib_index < 2 ^ 8"
    using assms(2) by linarith
  then show "unat (ucast ib_index :: 8 word) = unat ib_index"
    by (simp add: unsigned_ucast_eq take_bit_nat_eq_self)
qed

lemma IbNode_Inr:
  assumes "num_bits \<le> 8" and "unat ib_index < 2 ^ num_bits"
  shows "IbNode num_bits ib_index ib_type size_in_dwords fully_captured =
         Inr (IbNodeAux (IbType_to_u8 ib_type) (ucast ib_index) size_in_dwords
                (if fully_captured then 1 else 0))"
  using ib_index_fits(1) [OF assms] by (simp add: IbNode_def IbType_roundtrip Let_def)

text \<open>
  Claim C10. For a constant \<open>kMaxNumIbsBits = num_bits\<close> of at most 8 (the width of the ib-index field),
  every \<open>ib_index\<close> below \<open>2 ^ num_bits\<close>, every ib type, every 32-bit size and every
  flag: \<open>AuxInfo::IbNode\<close> returns an aux payload, and every node added with it as an Ib node
  reads back the same index, type, size and flag through the four accessors.
\<close>

theorem IbNode_roundtrip:
  assumes "num_bits \<le> 8" and "unat ib_index < 2 ^ num_bits"
  shows "\<exists>aux. IbNode num_bits ib_index ib_type size_in_dwords fully_captured = Inr aux \<and>
           (\<forall>ns desc ns' n. Nodes_AddNode ns kIbNode desc aux None 0 = Inr (ns', n) \<longrightarrow>
              (\<exists>ix. GetIbNodeIndex ns' n = Inr ix \<and> unat ix = unat ib_index) \<and>
              GetIbNodeType ns' n = Inr (Some ib_type) \<and>
              GetIbNodeSizeInDwords ns' n = Inr size_in_dwords \<and>
              GetIbNodeIsFullyCaptured ns' n = Inr fully_captured)"
proof (intro exI conjI allI impI)
  show "IbNode num_bits ib_index ib_type size_in_dwords fully_captured =
         Inr (IbNodeAux (IbType_to_u8 ib_type) (ucast ib_index) size_in_dwords
                (if fully_captured then 1 else 0))"
    by (rule IbNode_Inr [OF assms])
next
  fix ns desc ns' n
  assume "Nodes_AddNode ns kIbNode desc (IbNodeAux (IbType_to_u8 ib_type) (ucast ib_index)
     size_in_dwords (if fully_captured then 1 else 0)) None 0 = Inr (ns', n)"
  note add = Nodes_AddNode_Inr [OF this]
  have "n < length (m_aux_info ns')" "n < length (m_node_type ns')"
    "m_node_type ns' ! n = kIbNode"
    "m_aux_info ns' ! n = IbNodeAux (IbType_to_u8 ib_type) (ucast ib_index)
       size_in_dwords (if fully_captured then 1 else 0)"
    using add by blast+
  then have ib: "ib_node_of ns' n = Inr (IbType_to_u8 ib_type, ucast ib_index, size_in_dwords,
                      (if fully_captured then 1 else 0))"
    by (simp add: ib_node_of_def)
  show "GetIbNodeIndex ns' n = Inr (ucast ib_index)"
    using ib by (simp add: GetIbNodeIndex_def)
  show "unat (ucast ib_index :: 8 word) = unat ib_index"
    by (rule ib_index_fits(2) [OF assms])
  show "GetIbNodeType ns' n = Inr (Some ib_type)"
    using ib by (simp add: GetIbNodeType_def IbType_roundtrip)
  show "GetIbNodeSizeInDwords ns' n = Inr size_in_dwords"
    using ib by (simp add: GetIbNodeSizeInDwords_def)
  show "GetIbNodeIsFullyCaptured ns' n = Inr fully_captured"
    using ib by (simp add: GetIbNodeIsFullyCaptured_def)
qed

theorem IbNode_roundtrip_witness:
  "(8::nat) \<le> 8 \<and> unat (5 :: 32 word) < 2 ^ 8 \<and>
   (\<exists>aux ns' n. IbNode 8 5 kChain 100 True = Inr aux \<and>
      Nodes_AddNode empty_Nodes kIbNode ''Chain IB'' aux None 0 = Inr (ns', n) \<and>
      GetIbNodeIndex ns' n = Inr 5 \<and> GetIbNodeType ns' n = Inr (Some kChain) \<and>
      GetIbNodeSizeInDwords ns' n = Inr 100 \<and> GetIbNodeIsFullyCaptured ns' n = Inr True)"
proof -
  have h1: "(8::nat) \<le> 8" and h2: "unat (5 :: 32 word) < 2 ^ 8"
    by simp_all
  obtain aux where a: "IbNode 8 5 kChain 100 True = Inr aux"
    and g: "\<And>ns desc ns' n. Nodes_AddNode ns kIbNode desc aux None 0 = Inr (ns', n) \<Longrightarrow>
              (\<exists>ix. GetIbNodeIndex ns' n = Inr ix \<and> unat ix = unat (5 :: 32 word)) \<and>
              GetIbNodeType ns' n = Inr (Some kChain) \<and>
              GetIbNodeSizeInDwords ns' n = Inr 100 \<and>
              GetIbNodeIsFullyCaptured ns' n = Inr True"
    using IbNode_roundtrip [OF h1 h2, of kChain 100 True] by blast
  obtain ns' n where add: "Nodes_AddNode empty_Nodes kIbNode ''Chain IB'' aux None 0 = Inr (ns', n)"
    by (simp add: Nodes_AddNode_def empty_Nodes_def)
  from g [OF add] obtain ix where ix: "GetIbNodeIndex ns' n = Inr ix" "unat ix = unat (5 :: 32 word)"
    by blast
  then have "word_of_nat (unat ix) = (word_of_nat 5 :: 8 word)"
    by simp
  then have "ix = 5"
    by simp
  with a add g [OF add] ix h1 h2 show ?thesis
    by blast
qed

section \<open>Pre-order successor\<close>

lemma up_path_walks_up: "up_path T xs \<Longrightarrow> walks_up T (last xs) (hd xs)"
proof (induction T xs rule: up_path.induct)
  case (3 T a b xs)
  then have "walks_up T (last (b # xs)) b" by simp
  with 3 show ?case
    by (auto intro: walks_up.intros)
qed (auto intro: walks_up.intros)

lemma up_path_step:
  "up_path T xs \<Longrightarrow> Suc i < length xs \<Longrightarrow>
   xs ! i = m_node_parent T ! (xs ! Suc i) \<and> xs ! Suc i \<noteq> kRootNodeIndex \<and>
   \<not> has_next_sibling T (xs ! Suc i)"
proof (induction T xs arbitrary: i rule: up_path.induct)
  case (3 T a b xs)
  then show ?case by (cases i) auto
qed auto

lemma inv_child:
  assumes "primary_tree_inv T" "n < length (m_node_children T)" "n \<noteq> kRootNodeIndex"
  shows "m_node_parent T ! n < length (m_node_children T)"
    and "m_node_child_index T ! n < snd (m_node_children T ! (m_node_parent T ! n))"
    and "m_children_list T ! (fst (m_node_children T ! (m_node_parent T ! n)) + m_node_child_index T ! n) = n"
    and "m_node_parent T ! n \<noteq> UINT64_MAX"
proof -
  from assms have g: "GetChildNodeIndex T (m_node_parent T ! n) (m_node_child_index T ! n) = Inr n"
    and p: "m_node_parent T ! n \<noteq> UINT64_MAX"
    by (auto simp: primary_tree_inv_def)
  from g show "m_node_parent T ! n < length (m_node_children T)"
    by (auto simp: GetChildNodeIndex_def Let_def split: if_splits)
  from g show "m_node_child_index T ! n < snd (m_node_children T ! (m_node_parent T ! n))"
    by (auto simp: GetChildNodeIndex_def Let_def split: if_splits)
  from g show "m_children_list T ! (fst (m_node_children T ! (m_node_parent T ! n)) + m_node_child_index T ! n) = n"
    by (auto simp: GetChildNodeIndex_def Let_def split: if_splits)
  from p show "m_node_parent T ! n \<noteq> UINT64_MAX" .
qed

lemma up_path_in_range:
  assumes inv: "primary_tree_inv T"
  shows "up_path T xs \<Longrightarrow> last xs < length (m_node_children T) \<Longrightarrow>
         \<forall>x \<in> set xs. x < length (m_node_children T)"
proof (induction xs)
  case Nil
  then show ?case by simp
next
  case (Cons a L)
  show ?case
  proof (cases L)
    case Nil
    with Cons.prems show ?thesis by simp
  next
    case (Cons b xs)
    with Cons.prems have up: "up_path T L" and a: "a = m_node_parent T ! b"
      and b: "b \<noteq> kRootNodeIndex" and lastL: "last L < length (m_node_children T)"
      by auto
    from Cons.IH [OF up lastL] have rng: "\<forall>x \<in> set L. x < length (m_node_children T)" .
    then have "b < length (m_node_children T)"
      using Cons by simp
    from inv_child(1) [OF inv this b] have "a < length (m_node_children T)"
      by (simp only: a)
    with rng show ?thesis by simp
  qed
qed

lemma last_child_unique:
  assumes inv: "primary_tree_inv T"
    and b: "b < length (m_node_children T)" "b \<noteq> kRootNodeIndex" "\<not> has_next_sibling T b"
    and z: "z < length (m_node_children T)" "z \<noteq> kRootNodeIndex" "\<not> has_next_sibling T z"
    and same: "m_node_parent T ! b = m_node_parent T ! z"
  shows "b = z"
proof -
  define p where "p = m_node_parent T ! b"
  have pz: "m_node_parent T ! z = p"
    using same by (simp add: p_def)
  have 1: "m_node_child_index T ! b < snd (m_node_children T ! p)"
    using inv_child(2) [OF inv b(1,2)] by (simp only: p_def)
  have 2: "m_node_child_index T ! z < snd (m_node_children T ! p)"
    using inv_child(2) [OF inv z(1,2)] by (simp only: pz)
  have 3: "\<not> m_node_child_index T ! b + 1 < snd (m_node_children T ! p)"
    using b(3) by (simp add: has_next_sibling_def p_def)
  have 4: "\<not> m_node_child_index T ! z + 1 < snd (m_node_children T ! p)"
    using z(3) by (simp add: has_next_sibling_def pz)
  have ci: "m_node_child_index T ! b = m_node_child_index T ! z"
    using 1 2 3 4 by arith
  define c where "c = m_children_list T ! (fst (m_node_children T ! p) + m_node_child_index T ! z)"
  have "c = b"
    unfolding c_def ci [symmetric] p_def by (rule inv_child(3) [OF inv b(1,2)])
  moreover have "c = z"
    unfolding c_def pz [symmetric] by (rule inv_child(3) [OF inv z(1,2)])
  ultimately show ?thesis
    by (rule trans [OF sym])
qed

lemma up_path_distinct:
  assumes inv: "primary_tree_inv T"
  shows "up_path T xs \<Longrightarrow> last xs < length (m_node_children T) \<Longrightarrow>
         snd (m_node_children T ! last xs) = 0 \<Longrightarrow> distinct xs"
proof (induction xs)
  case Nil
  then show ?case by simp
next
  case (Cons a L)
  show ?case
  proof (cases L)
    case Nil
    then show ?thesis by simp
  next
    case (Cons b xs)
    with Cons.prems have up: "up_path T L" and a: "a = m_node_parent T ! b"
      and b: "b \<noteq> kRootNodeIndex" "\<not> has_next_sibling T b"
      and lastL: "last L < length (m_node_children T)" "snd (m_node_children T ! last L) = 0"
      by auto
    from Cons.IH [OF up lastL] have dL: "distinct L" .
    have rng: "\<forall>x \<in> set L. x < length (m_node_children T)"
      using up_path_in_range [OF inv up lastL(1)] .
    have bN: "b < length (m_node_children T)"
      using rng Cons by simp
    have "a \<notin> set L"
    proof
      assume "a \<in> set L"
      then obtain i where i: "i < length L" "L ! i = a"
        by (auto simp: in_set_conv_nth)
      show False
      proof (cases "Suc i < length L")
        case False
        from False i have "i = length L - 1"
          by simp
        moreover from i have "L \<noteq> []"
          by (cases L) simp_all
        ultimately have "i = length L - 1" and "L \<noteq> []"
          by simp_all
        with i have "a = last L"
          by (simp add: last_conv_nth)
        with lastL(2) inv_child(2) [OF inv bN b(1)] a show False
          by simp
      next
        case True
        note st = up_path_step [OF up True]
        let ?z = "L ! Suc i"
        have zN: "?z < length (m_node_children T)"
          using rng True by simp
        have "b = ?z"
          using last_child_unique [OF inv bN b zN] st i(2) a by simp
        moreover have "b = L ! 0"
          using Cons by simp
        ultimately have eq: "L ! 0 = L ! Suc i"
          by simp
        have "0 < length L"
          using True by linarith
        from nth_eq_iff_index_eq [OF dL this True] eq show False
          by simp
      qed
    qed
    with dL show ?thesis by simp
  qed
qed


lemma distinct_length_le:
  assumes "distinct ys" "\<forall>y \<in> set ys. y < (N::nat)"
  shows "length ys \<le> N"
proof -
  have "set ys \<subseteq> {..<N}"
    using assms(2) by auto
  then have "card (set ys) \<le> card {..<N}"
    by (intro card_mono) simp_all
  then show ?thesis
    using distinct_card [OF assms(1)] by simp
qed

lemma child_in_range:
  assumes inv: "primary_tree_inv T" and p: "p < length (m_node_children T)"
    and k: "k < snd (m_node_children T ! p)"
  shows "GetChildNodeIndex T p k = Inr (m_children_list T ! (fst (m_node_children T ! p) + k))"
proof -
  have "fst (m_node_children T ! p) + snd (m_node_children T ! p) \<le> length (m_children_list T)"
    using inv p by (simp add: primary_tree_inv_def)
  with k have "fst (m_node_children T ! p) + k < length (m_children_list T)"
    by linarith
  with p k show ?thesis
    by (simp add: GetChildNodeIndex_def Let_def)
qed

lemma num_children_u64:
  assumes inv: "primary_tree_inv T" and p: "p < length (m_node_children T)"
  shows "snd (m_node_children T ! p) \<le> UINT64_MAX"
proof -
  have "fst (m_node_children T ! p) + snd (m_node_children T ! p) \<le> length (m_children_list T)"
    and "length (m_children_list T) \<le> UINT64_MAX"
    using inv p by (simp_all add: primary_tree_inv_def)
  then show ?thesis by linarith
qed

lemma loop_returns:
  assumes inv: "primary_tree_inv T"
    and n: "n < length (m_node_children T)" "snd (m_node_children T ! n) = 0"
  shows "up_path T xs \<Longrightarrow> last xs = n \<Longrightarrow> k = length (m_node_children T) - length xs \<Longrightarrow>
         \<exists>r. GetNextNodeIndex_loop T (hd xs) = Some (Inr r) \<and>
           (\<exists>a. walks_up T n a \<and>
              (if a = kRootNodeIndex then r = UINT64_MAX
               else has_next_sibling T a \<and>
                    GetChildNodeIndex T (m_node_parent T ! a) (m_node_child_index T ! a + 1) = Inr r))"
proof (induction k arbitrary: xs rule: less_induct)
  case (less k)
  let ?N = "length (m_node_children T)"
  from less.prems(1) obtain a rest where xs: "xs = a # rest"
    by (cases xs) auto
  have lastN: "last xs < ?N" and last0: "snd (m_node_children T ! last xs) = 0"
    using less.prems(2) n by simp_all
  have rng: "\<forall>x \<in> set xs. x < ?N"
    using up_path_in_range [OF inv less.prems(1) lastN] .
  have dist: "distinct xs"
    using up_path_distinct [OF inv less.prems(1) lastN last0] .
  have aN: "a < ?N"
    using rng xs by simp
  have wa: "walks_up T n a"
    using up_path_walks_up [OF less.prems(1)] less.prems(2) xs by simp
  show ?case
  proof (cases "a = kRootNodeIndex")
    case True
    then have "GetNextNodeIndex_loop T (hd xs) = Some (Inr UINT64_MAX)"
      using xs by (simp add: GetNextNodeIndex_loop.simps)
    with wa True show ?thesis
      by auto
  next
    case False
    define p where "p = m_node_parent T ! a"
    define ci where "ci = m_node_child_index T ! a"
    have lens: "length (m_node_parent T) = ?N" "length (m_node_child_index T) = ?N"
      using inv by (simp_all add: primary_tree_inv_def)
    have pN: "p < ?N" and ci: "ci < snd (m_node_children T ! p)"
      using inv_child(1,2) [OF inv aN False] by (simp_all add: p_def ci_def)
    have "snd (m_node_children T ! p) \<le> UINT64_MAX"
      using num_children_u64 [OF inv pN] .
    with ci have "ci + 1 < 2 ^ 64"
      by (simp add: UINT64_MAX_def)
    then have wrap: "(ci + 1) mod 2 ^ 64 = ci + 1"
      by simp
    have gp: "GetParentNodeIndex T a = Inr p"
      using aN lens by (simp add: GetParentNodeIndex_def p_def)
    have gc: "GetChildIndex T a = Inr ci"
      using aN lens by (simp add: GetChildIndex_def ci_def)
    have gn: "GetNumChildren T p = Inr (snd (m_node_children T ! p))"
      using pN by (simp add: GetNumChildren_def)
    show ?thesis
    proof (cases "ci + 1 < snd (m_node_children T ! p)")
      case True
      have "GetNextNodeIndex_loop T a = Some (GetChildNodeIndex T p (ci + 1))"
        using False gp gc gn wrap True
        by (subst GetNextNodeIndex_loop.simps) (simp add: Let_def)
      moreover have "GetChildNodeIndex T p (ci + 1) =
          Inr (m_children_list T ! (fst (m_node_children T ! p) + (ci + 1)))"
        using child_in_range [OF inv pN True] .
      moreover have "has_next_sibling T a"
        using True by (simp add: has_next_sibling_def p_def ci_def)
      ultimately show ?thesis
        using wa False xs unfolding p_def ci_def by auto
    next
      case nosib: False
      have step: "GetNextNodeIndex_loop T a = GetNextNodeIndex_loop T p"
        using False gp gc gn wrap nosib
        by (subst GetNextNodeIndex_loop.simps) (simp add: Let_def)
      have nh: "\<not> has_next_sibling T a"
        using nosib by (simp add: has_next_sibling_def p_def ci_def)
      have up': "up_path T (p # xs)"
        using less.prems(1) False nh xs by (simp add: p_def)
      have last': "last (p # xs) = n"
        using less.prems(2) xs by simp
      have lastN': "last (p # xs) < ?N" and last0': "snd (m_node_children T ! last (p # xs)) = 0"
        using last' n by simp_all
      have "distinct (p # xs)"
        using up_path_distinct [OF inv up' lastN' last0'] .
      moreover have "\<forall>x \<in> set (p # xs). x < ?N"
        using up_path_in_range [OF inv up' lastN'] .
      ultimately have "length (p # xs) \<le> ?N"
        by (rule distinct_length_le)
      then have lt: "?N - length (p # xs) < k"
        using less.prems(3) by simp
      from less.IH [OF lt up' last' refl] step xs show ?thesis
        by simp
    qed
  qed
qed

text \<open>
  Claim C8. On a topology that satisfies the primary-tree invariant, \<open>GetNextNodeIndex\<close>
  returns for every node: the first primary child when the node has children; otherwise the
  next sibling of the nearest ancestor-or-self that has one; and \<open>UINT64_MAX\<close> when the walk
  up reaches the root.
\<close>

theorem GetNextNodeIndex_preorder:
  assumes "primary_tree_inv T" and "n < length (m_node_children T)"
  shows "\<exists>r. GetNextNodeIndex T n = Some (Inr r) \<and> next_in_preorder_spec T n r"
proof (cases "snd (m_node_children T ! n) > 0")
  case True
  have "GetChildNodeIndex T n 0 = Inr (m_children_list T ! (fst (m_node_children T ! n) + 0))"
    using child_in_range [OF assms True] .
  with True assms(2) show ?thesis
    by (simp add: GetNextNodeIndex_def GetNumChildren_def next_in_preorder_spec_def)
next
  case False
  then have z: "snd (m_node_children T ! n) = 0"
    by simp
  have "up_path T [n]" "last [n] = n"
    by simp_all
  from loop_returns [OF assms z this refl] z assms(2) show ?thesis
    by (simp add: GetNextNodeIndex_def GetNumChildren_def next_in_preorder_spec_def)
qed

lemma example_topology_eq:
  "example_topology =
     \<lparr>m_node_children = [(0, 2), (2, 1), (3, 0), (3, 0)],
      m_node_shared_children = [(0, 0), (0, 0), (0, 0), (0, 0)],
      m_children_list = [1, 2, 3], m_shared_children_list = [],
      m_node_parent = [UINT64_MAX, 0, 0, 1], m_node_child_index = [UINT64_MAX, 0, 1, 0]\<rparr>"
  by (simp add: example_topology_def build_topology_def SetNumNodes_def resize_def
      empty_Topology_def AddChildren_def AddSharedChildren_def Let_def upt_rec)

lemma example_topology_inv: "primary_tree_inv example_topology"
  unfolding example_topology_eq
  by (simp add: primary_tree_inv_def GetChildNodeIndex_def kRootNodeIndex_def Let_def
      UINT64_MAX_def lessThan_nat_numeral lessThan_Suc)

theorem GetNextNodeIndex_preorder_witness:
  "primary_tree_inv example_topology \<and> (3::nat) < length (m_node_children example_topology) \<and>
   GetNextNodeIndex example_topology 3 = Some (Inr 2) \<and>
   next_in_preorder_spec example_topology 3 2"
proof -
  have lt: "(3::nat) < length (m_node_children example_topology)"
    by (simp add: example_topology_eq)
  have g: "GetNextNodeIndex example_topology 3 = Some (Inr 2)"
    unfolding example_topology_eq
    by (simp add: GetNextNodeIndex_def GetNextNodeIndex_loop.simps GetNumChildren_def
        GetParentNodeIndex_def GetChildIndex_def GetChildNodeIndex_def kRootNodeIndex_def Let_def)
  from GetNextNodeIndex_preorder [OF example_topology_inv lt] g
  have "next_in_preorder_spec example_topology 3 2"
    by auto
  with example_topology_inv lt g show ?thesis
    by simp
qed

section \<open>Construction of a topology\<close>

lemma AddChildren_loop_frame:
  "AddChildren_loop T node cs i = Inr T' \<Longrightarrow>
   m_node_children T' = m_node_children T \<and> m_children_list T' = m_children_list T \<and>
   m_node_shared_children T' = m_node_shared_children T \<and>
   m_shared_children_list T' = m_shared_children_list T \<and>
   length (m_node_parent T') = length (m_node_parent T) \<and>
   length (m_node_child_index T') = length (m_node_child_index T)"
proof (induction cs arbitrary: T i)
  case Nil
  then show ?case by simp
next
  case (Cons c rest)
  from Cons.prems obtain T1 where
    T1: "T1 = T\<lparr>m_node_parent := (m_node_parent T)[c := node],
                 m_node_child_index := (m_node_child_index T)[c := i]\<rparr>"
    and rec: "AddChildren_loop T1 node rest (i + 1) = Inr T'"
    by (auto split: if_splits)
  from Cons.IH [OF rec] show ?case
    by (simp add: T1)
qed

lemma AddChildren_loop_parents:
  "AddChildren_loop T node cs i = Inr T' \<Longrightarrow> node \<noteq> UINT64_MAX \<Longrightarrow>
   (\<forall>j < length cs. m_node_parent T' ! (cs ! j) = node \<and>
                     m_node_child_index T' ! (cs ! j) = i + j) \<and>
   (\<forall>x. x \<notin> set cs \<longrightarrow> m_node_parent T' ! x = m_node_parent T ! x \<and>
                        m_node_child_index T' ! x = m_node_child_index T ! x) \<and>
   (\<forall>c \<in> set cs. m_node_parent T ! c = UINT64_MAX \<and> c < length (m_node_parent T) \<and>
                  c < length (m_node_child_index T) \<and> c < length (m_node_children T))"
proof (induction cs arbitrary: T i)
  case Nil
  then show ?case by simp
next
  case (Cons c rest)
  define T1 where "T1 = T\<lparr>m_node_parent := (m_node_parent T)[c := node],
                 m_node_child_index := (m_node_child_index T)[c := i]\<rparr>"
  from Cons.prems(1) have c: "c < length (m_node_children T)" "c < length (m_node_parent T)"
      "m_node_parent T ! c = UINT64_MAX" "c < length (m_node_child_index T)"
    and rec: "AddChildren_loop T1 node rest (i + 1) = Inr T'"
    by (auto simp: T1_def split: if_splits)
  note IH = Cons.IH [OF rec Cons.prems(2)]
  have p1: "m_node_parent T1 ! c = node" "m_node_child_index T1 ! c = i"
    using c by (simp_all add: T1_def)
  have c_notin: "c \<notin> set rest"
  proof
    assume "c \<in> set rest"
    with IH have "m_node_parent T1 ! c = UINT64_MAX" by blast
    with p1 Cons.prems(2) show False by simp
  qed
  have other: "\<And>x. x \<noteq> c \<Longrightarrow> m_node_parent T1 ! x = m_node_parent T ! x \<and>
        m_node_child_index T1 ! x = m_node_child_index T ! x"
    by (simp add: T1_def)
  have len1: "length (m_node_parent T1) = length (m_node_parent T)"
    "length (m_node_child_index T1) = length (m_node_child_index T)"
    "length (m_node_children T1) = length (m_node_children T)"
    by (simp_all add: T1_def)
  show ?case
  proof (intro conjI allI impI ballI)
    fix j assume j: "j < length (c # rest)"
    show "m_node_parent T' ! ((c # rest) ! j) = node"
    proof (cases j)
      case 0
      with IH c_notin p1 show ?thesis by simp
    next
      case (Suc j')
      with j IH show ?thesis by simp
    qed
    show "m_node_child_index T' ! ((c # rest) ! j) = i + j"
    proof (cases j)
      case 0
      with IH c_notin p1 show ?thesis by simp
    next
      case (Suc j')
      with j IH show ?thesis by simp
    qed
  next
    fix x assume "x \<notin> set (c # rest)"
    then have x: "x \<noteq> c" "x \<notin> set rest" by simp_all
    with IH other show "m_node_parent T' ! x = m_node_parent T ! x" by simp
    from x IH other show "m_node_child_index T' ! x = m_node_child_index T ! x" by simp
  next
    fix d assume d: "d \<in> set (c # rest)"
    show "m_node_parent T ! d = UINT64_MAX"
    proof (cases "d = c")
      case True with c show ?thesis by simp
    next
      case False
      with d have "d \<in> set rest" by simp
      with IH have "m_node_parent T1 ! d = UINT64_MAX" by blast
      with other [OF False] show ?thesis by simp
    qed
    show "d < length (m_node_parent T)"
      using d IH c len1 by auto
    show "d < length (m_node_child_index T)"
      using d IH c len1 by auto
    show "d < length (m_node_children T)"
      using d IH c len1 by auto
  qed
qed

lemma AddChildren_Inr:
  assumes "AddChildren T node cs = Inr T'"
  shows "node < length (m_node_children T)"
    and "m_children_list T' = m_children_list T @ cs"
    and "m_node_children T' = (m_node_children T)[node := (length (m_children_list T), length cs)]"
    and "m_node_shared_children T' = m_node_shared_children T"
    and "m_shared_children_list T' = m_shared_children_list T"
    and "length (m_node_parent T') = length (m_node_parent T)"
    and "length (m_node_child_index T') = length (m_node_child_index T)"
    and "length (m_node_parent T) = length (m_node_children T)"
    and "length (m_node_child_index T) = length (m_node_children T)"
proof -
  define T1 where "T1 = T\<lparr>m_children_list := m_children_list T @ cs,
      m_node_children := (m_node_children T)[node := (length (m_children_list T), length cs)]\<rparr>"
  from assms have n: "node < length (m_node_children T)"
    and lens: "length (m_node_parent T) = length (m_node_children T)"
      "length (m_node_child_index T) = length (m_node_children T)"
    and loop: "AddChildren_loop T1 node cs 0 = Inr T'"
    by (auto simp: AddChildren_def Let_def T1_def split: if_splits)
  note fr = AddChildren_loop_frame [OF loop]
  show "node < length (m_node_children T)" by (rule n)
  show "m_children_list T' = m_children_list T @ cs" using fr by (simp add: T1_def)
  show "m_node_children T' = (m_node_children T)[node := (length (m_children_list T), length cs)]"
    using fr by (simp add: T1_def)
  show "m_node_shared_children T' = m_node_shared_children T" using fr by (simp add: T1_def)
  show "m_shared_children_list T' = m_shared_children_list T" using fr by (simp add: T1_def)
  show "length (m_node_parent T') = length (m_node_parent T)" using fr by (simp add: T1_def)
  show "length (m_node_child_index T') = length (m_node_child_index T)"
    using fr by (simp add: T1_def)
  show "length (m_node_parent T) = length (m_node_children T)" by (rule lens)
  show "length (m_node_child_index T) = length (m_node_children T)" by (rule lens)
qed

lemma AddChildren_parents:
  assumes "AddChildren T node cs = Inr T'" and "node \<noteq> UINT64_MAX"
  shows "\<forall>j < length cs. m_node_parent T' ! (cs ! j) = node \<and> m_node_child_index T' ! (cs ! j) = j"
    and "\<forall>x. x \<notin> set cs \<longrightarrow> m_node_parent T' ! x = m_node_parent T ! x \<and>
                        m_node_child_index T' ! x = m_node_child_index T ! x"
    and "\<forall>c \<in> set cs. m_node_parent T ! c = UINT64_MAX \<and> c < length (m_node_children T)"
proof -
  define T1 where "T1 = T\<lparr>m_children_list := m_children_list T @ cs,
      m_node_children := (m_node_children T)[node := (length (m_children_list T), length cs)]\<rparr>"
  from assms(1) have loop: "AddChildren_loop T1 node cs 0 = Inr T'"
    by (auto simp: AddChildren_def Let_def T1_def split: if_splits)
  note p = AddChildren_loop_parents [OF loop assms(2)]
  show "\<forall>j < length cs. m_node_parent T' ! (cs ! j) = node \<and> m_node_child_index T' ! (cs ! j) = j"
    using p by simp
  show "\<forall>x. x \<notin> set cs \<longrightarrow> m_node_parent T' ! x = m_node_parent T ! x \<and>
                        m_node_child_index T' ! x = m_node_child_index T ! x"
    using p by (simp add: T1_def)
  show "\<forall>c \<in> set cs. m_node_parent T ! c = UINT64_MAX \<and> c < length (m_node_children T)"
    using p by (simp add: T1_def)
qed

lemma AddSharedChildren_Inr:
  assumes "AddSharedChildren T node cs = Inr T'"
  shows "node < length (m_node_shared_children T)"
    and "m_shared_children_list T' = m_shared_children_list T @ cs"
    and "m_node_shared_children T' =
           (m_node_shared_children T)[node := (length (m_shared_children_list T), length cs)]"
    and "m_node_children T' = m_node_children T"
    and "m_children_list T' = m_children_list T"
    and "m_node_parent T' = m_node_parent T"
    and "m_node_child_index T' = m_node_child_index T"
  using assms by (auto simp: AddSharedChildren_def Let_def split: if_splits)


lemma seg_ok_new: "p < length info \<Longrightarrow> seg_ok (info[p := (length lst, length cs)]) (lst @ cs) p cs"
  by (simp add: seg_ok_def nth_append)

lemma seg_ok_keep:
  "seg_ok info lst p cs \<Longrightarrow> p \<noteq> a \<Longrightarrow> seg_ok (info[a := v]) (lst @ ys) p cs"
  by (auto simp: seg_ok_def nth_append)

lemma fill_topology_children:
  "fill_topology T c0 c1 idxs = Inr T' \<Longrightarrow> distinct idxs \<Longrightarrow>
   length (m_node_children T') = length (m_node_children T) \<and>
   length (m_node_shared_children T') = length (m_node_shared_children T) \<and>
   length (m_node_parent T') = length (m_node_parent T) \<and>
   length (m_node_child_index T') = length (m_node_child_index T) \<and>
   (\<forall>p \<in> set idxs. seg_ok (m_node_children T') (m_children_list T') p (c0 ! p) \<and>
       seg_ok (m_node_shared_children T') (m_shared_children_list T') p (c1 ! p)) \<and>
   (\<forall>p cs. p \<notin> set idxs \<longrightarrow> seg_ok (m_node_children T) (m_children_list T) p cs \<longrightarrow>
       seg_ok (m_node_children T') (m_children_list T') p cs) \<and>
   (\<forall>p cs. p \<notin> set idxs \<longrightarrow> seg_ok (m_node_shared_children T) (m_shared_children_list T) p cs \<longrightarrow>
       seg_ok (m_node_shared_children T') (m_shared_children_list T') p cs)"
proof (induction idxs arbitrary: T)
  case Nil
  then show ?case by simp
next
  case (Cons a rest)
  from Cons.prems(1) obtain T1 T2 where
    a1: "AddChildren T a (c0 ! a) = Inr T1" and
    a2: "AddSharedChildren T1 a (c1 ! a) = Inr T2" and
    rec: "fill_topology T2 c0 c1 rest = Inr T'"
    by (auto split: if_splits sum.splits)
  from Cons.prems(2) have d: "distinct rest" and a: "a \<notin> set rest"
    by simp_all
  note A = AddChildren_Inr [OF a1]
  note S = AddSharedChildren_Inr [OF a2]
  note IH = Cons.IH [OF rec d]
  have na: "seg_ok (m_node_children T2) (m_children_list T2) a (c0 ! a)"
    using A(1) by (simp add: S(4,5) A(2,3) seg_ok_new)
  have sa: "seg_ok (m_node_shared_children T2) (m_shared_children_list T2) a (c1 ! a)"
    using S(1) by (simp add: S(2,3) seg_ok_new)
  have keep1: "\<And>p cs. p \<noteq> a \<Longrightarrow> seg_ok (m_node_children T) (m_children_list T) p cs \<Longrightarrow>
      seg_ok (m_node_children T2) (m_children_list T2) p cs"
    by (simp add: S(4,5) A(2,3) seg_ok_keep)
  have keep2: "\<And>p cs. p \<noteq> a \<Longrightarrow>
      seg_ok (m_node_shared_children T) (m_shared_children_list T) p cs \<Longrightarrow>
      seg_ok (m_node_shared_children T2) (m_shared_children_list T2) p cs"
    by (simp add: S(2,3) A(4,5) seg_ok_keep)
  have l1: "length (m_node_children T') = length (m_node_children T)"
    using IH by (simp add: S(4) A(3))
  have l2: "length (m_node_shared_children T') = length (m_node_shared_children T)"
    using IH by (simp add: S(3) A(4))
  have l3: "length (m_node_parent T') = length (m_node_parent T)"
    using IH by (simp add: S(6) A(6))
  have l4: "length (m_node_child_index T') = length (m_node_child_index T)"
    using IH by (simp add: S(7) A(7))
  have new: "\<forall>p \<in> set (a # rest). seg_ok (m_node_children T') (m_children_list T') p (c0 ! p) \<and>
       seg_ok (m_node_shared_children T') (m_shared_children_list T') p (c1 ! p)"
    using IH a na sa by auto
  have k1: "\<forall>p cs. p \<notin> set (a # rest) \<longrightarrow> seg_ok (m_node_children T) (m_children_list T) p cs \<longrightarrow>
       seg_ok (m_node_children T') (m_children_list T') p cs"
    using IH keep1 by auto
  have k2: "\<forall>p cs. p \<notin> set (a # rest) \<longrightarrow>
       seg_ok (m_node_shared_children T) (m_shared_children_list T) p cs \<longrightarrow>
       seg_ok (m_node_shared_children T') (m_shared_children_list T') p cs"
    using IH keep2 by auto
  from l1 l2 l3 l4 new k1 k2 show ?case
    by blast
qed

lemma fill_topology_parents:
  "fill_topology T c0 c1 idxs = Inr T' \<Longrightarrow> \<forall>p \<in> set idxs. p \<noteq> UINT64_MAX \<Longrightarrow>
   (\<forall>p \<in> set idxs. par_ok T' p (c0 ! p)) \<and>
   (\<forall>p cs. p \<noteq> UINT64_MAX \<longrightarrow> par_ok T p cs \<longrightarrow> par_ok T' p cs)"
proof (induction idxs arbitrary: T)
  case Nil
  then show ?case by simp
next
  case (Cons a rest)
  from Cons.prems(1) obtain T1 T2 where
    a1: "AddChildren T a (c0 ! a) = Inr T1" and
    a2: "AddSharedChildren T1 a (c1 ! a) = Inr T2" and
    rec: "fill_topology T2 c0 c1 rest = Inr T'"
    by (auto split: if_splits sum.splits)
  from Cons.prems(2) have am: "a \<noteq> UINT64_MAX" and rm: "\<forall>p \<in> set rest. p \<noteq> UINT64_MAX"
    by simp_all
  note A = AddChildren_Inr [OF a1]
  note P = AddChildren_parents [OF a1 am]
  note S = AddSharedChildren_Inr [OF a2]
  note IH = Cons.IH [OF rec rm]
  have pa: "par_ok T2 a (c0 ! a)"
    unfolding par_ok_def
  proof (intro allI impI)
    fix k assume k: "k < length (c0 ! a)"
    then have "c0 ! a ! k \<in> set (c0 ! a)" by simp
    with P(3) have "c0 ! a ! k < length (m_node_children T)" by blast
    then have "c0 ! a ! k < length (m_node_parent T2)"
      by (simp add: S(6) A(6,8))
    with P(1) k show "c0 ! a ! k < length (m_node_parent T2) \<and> m_node_parent T2 ! (c0 ! a ! k) = a \<and>
                      m_node_child_index T2 ! (c0 ! a ! k) = k"
      by (simp add: S(6,7))
  qed
  have keep: "\<And>p cs. p \<noteq> UINT64_MAX \<Longrightarrow> par_ok T p cs \<Longrightarrow> par_ok T2 p cs"
    unfolding par_ok_def
  proof (intro allI impI)
    fix p cs k
    assume p: "p \<noteq> UINT64_MAX"
      and ok: "\<forall>k<length cs. cs ! k < length (m_node_parent T) \<and> m_node_parent T ! (cs ! k) = p \<and>
                      m_node_child_index T ! (cs ! k) = k"
      and k: "k < length cs"
    from ok k have c: "cs ! k < length (m_node_parent T)" "m_node_parent T ! (cs ! k) = p"
      "m_node_child_index T ! (cs ! k) = k"
      by simp_all
    have "cs ! k \<notin> set (c0 ! a)"
    proof
      assume "cs ! k \<in> set (c0 ! a)"
      with P(3) have "m_node_parent T ! (cs ! k) = UINT64_MAX" by blast
      with c(2) p show False by simp
    qed
    with P(2) c show "cs ! k < length (m_node_parent T2) \<and> m_node_parent T2 ! (cs ! k) = p \<and>
                      m_node_child_index T2 ! (cs ! k) = k"
      by (simp add: S(6,7) A(6))
  qed
  show ?case
  proof (intro conjI ballI allI impI)
    fix p assume "p \<in> set (a # rest)"
    then show "par_ok T' p (c0 ! p)"
      using IH pa am by auto
  next
    fix p cs assume "p \<noteq> UINT64_MAX" "par_ok T p cs"
    then show "par_ok T' p cs"
      using IH keep by blast
  qed
qed

lemma SetNumNodes_lengths:
  "length (m_node_children (SetNumNodes T n)) = n"
  "length (m_node_shared_children (SetNumNodes T n)) = n"
  "length (m_node_parent (SetNumNodes T n)) = n"
  "length (m_node_child_index (SetNumNodes T n)) = n"
  by (simp_all add: SetNumNodes_def resize_def)

text \<open>What a successfully built topology answers to the query operations, in terms of the
  pending child lists it was built from.\<close>

lemma build_topology_queries:
  assumes b: "build_topology T0 c0 c1 = Inr T" and p: "p < length c0"
  shows "length (m_node_children T) = length c0"
    and "GetNumNodes T = Inr (length c0)"
    and "GetNumChildren T p = Inr (length (c0 ! p))"
    and "GetNumSharedChildren T p = Inr (length (c1 ! p))"
    and "k < length (c0 ! p) \<Longrightarrow> GetChildNodeIndex T p k = Inr (c0 ! p ! k)"
    and "k < length (c1 ! p) \<Longrightarrow> GetSharedChildNodeIndex T p k = Inr (c1 ! p ! k)"
proof -
  let ?S = "SetNumNodes T0 (length c0)"
  from b have f: "fill_topology ?S c0 c1 [0..<length c0] = Inr T"
    by (simp add: build_topology_def Let_def)
  have fc: "length (m_node_children T) = length (m_node_children ?S) \<and>
   length (m_node_shared_children T) = length (m_node_shared_children ?S) \<and>
   length (m_node_parent T) = length (m_node_parent ?S) \<and>
   length (m_node_child_index T) = length (m_node_child_index ?S) \<and>
   (\<forall>p \<in> set [0..<length c0]. seg_ok (m_node_children T) (m_children_list T) p (c0 ! p) \<and>
       seg_ok (m_node_shared_children T) (m_shared_children_list T) p (c1 ! p))"
    using fill_topology_children [OF f] by simp
  then have lens: "length (m_node_children T) = length c0"
      "length (m_node_shared_children T) = length c0"
      "length (m_node_parent T) = length c0" "length (m_node_child_index T) = length c0"
    by (simp_all add: SetNumNodes_lengths)
  from fc p have s0: "seg_ok (m_node_children T) (m_children_list T) p (c0 ! p)"
    and s1: "seg_ok (m_node_shared_children T) (m_shared_children_list T) p (c1 ! p)"
    by simp_all
  show "length (m_node_children T) = length c0" by (rule lens)
  show "GetNumNodes T = Inr (length c0)"
    using lens by (simp add: GetNumNodes_def)
  show "GetNumChildren T p = Inr (length (c0 ! p))"
    using s0 by (simp add: GetNumChildren_def seg_ok_def)
  show "GetNumSharedChildren T p = Inr (length (c1 ! p))"
    using s1 by (simp add: GetNumSharedChildren_def seg_ok_def)
  show "GetChildNodeIndex T p k = Inr (c0 ! p ! k)" if "k < length (c0 ! p)"
    using s0 that by (simp add: GetChildNodeIndex_def seg_ok_def Let_def)
  show "GetSharedChildNodeIndex T p k = Inr (c1 ! p ! k)" if "k < length (c1 ! p)"
    using s1 that by (simp add: GetSharedChildNodeIndex_def seg_ok_def Let_def)
qed

lemma build_topology_parent:
  assumes b: "build_topology T0 c0 c1 = Inr T" and n: "length c0 \<le> UINT64_MAX"
    and p: "p < length c0" and k: "k < length (c0 ! p)"
  shows "GetParentNodeIndex T (c0 ! p ! k) = Inr p" and "GetChildIndex T (c0 ! p ! k) = Inr k"
    and "p \<noteq> UINT64_MAX"
proof -
  let ?S = "SetNumNodes T0 (length c0)"
  from b have f: "fill_topology ?S c0 c1 [0..<length c0] = Inr T"
    by (simp add: build_topology_def Let_def)
  have "\<forall>q \<in> set [0..<length c0]. q \<noteq> UINT64_MAX"
    using n by auto
  from fill_topology_parents [OF f this] p have "par_ok T p (c0 ! p)"
    by simp
  with k have c: "c0 ! p ! k < length (m_node_parent T)" "m_node_parent T ! (c0 ! p ! k) = p"
      "m_node_child_index T ! (c0 ! p ! k) = k"
    by (simp_all add: par_ok_def)
  have "length (m_node_child_index T) = length (m_node_parent T)"
    using fill_topology_children [OF f] by (simp add: SetNumNodes_lengths)
  with c show "GetParentNodeIndex T (c0 ! p ! k) = Inr p" "GetChildIndex T (c0 ! p ! k) = Inr k"
    by (simp_all add: GetParentNodeIndex_def GetChildIndex_def)
  show "p \<noteq> UINT64_MAX" using p n by simp
qed

section \<open>Event index\<close>

lemma lower_bound_le: "lower_bound xs v first len \<le> first + len"
proof (induction xs v first len rule: lower_bound.induct)
  case (1 xs v first len)
  show ?case
  proof (cases "len > 0")
    case False
    then show ?thesis by (simp add: lower_bound.simps)
  next
    case True
    define half where "half = len div 2"
    define middle where "middle = first + half"
    have h: "half < len" using True by (simp add: half_def)
    show ?thesis
    proof (cases "xs ! middle < v")
      case lt: True
      have "lower_bound xs v first len = lower_bound xs v (middle + 1) (len - (half + 1))"
        using True lt by (subst lower_bound.simps) (simp add: Let_def half_def middle_def)
      with "1.IH"(1) [OF True half_def middle_def lt] h show ?thesis
        by (simp add: middle_def)
    next
      case ge: False
      have "lower_bound xs v first len = lower_bound xs v first half"
        using True ge by (subst lower_bound.simps) (simp add: Let_def half_def middle_def)
      with "1.IH"(2) [OF True half_def middle_def ge] h show ?thesis
        by simp
    qed
  qed
qed

lemma lower_bound_spec:
  shows "sorted xs \<Longrightarrow> first + len \<le> length xs \<Longrightarrow> (\<forall>j < first. xs ! j < v) \<Longrightarrow>
         (\<forall>j. first + len \<le> j \<longrightarrow> j < length xs \<longrightarrow> v \<le> xs ! j) \<Longrightarrow>
         lower_bound xs v first len \<le> length xs \<and>
         (\<forall>j < lower_bound xs v first len. xs ! j < v) \<and>
         (\<forall>j. lower_bound xs v first len \<le> j \<longrightarrow> j < length xs \<longrightarrow> v \<le> xs ! j)"
proof (induction xs v first len rule: lower_bound.induct)
  case (1 xs v first len)
  show ?case
  proof (cases "len > 0")
    case False
    then have "lower_bound xs v first len = first"
      by (simp add: lower_bound.simps)
    with False "1.prems" show ?thesis by simp
  next
    case True
    define half where "half = len div 2"
    define middle where "middle = first + half"
    note sx = "1.prems"(1)
    have mid: "middle < length xs" "half < len"
      using True "1.prems"(2) by (simp_all add: middle_def half_def)
    show ?thesis
    proof (cases "xs ! middle < v")
      case lt: True
      have eq: "lower_bound xs v first len = lower_bound xs v (middle + 1) (len - (half + 1))"
        using True lt by (subst lower_bound.simps) (simp add: Let_def half_def middle_def)
      have p1: "middle + 1 + (len - (half + 1)) \<le> length xs"
        using "1.prems"(2) mid by (simp add: middle_def)
      have p2: "\<forall>j < middle + 1. xs ! j < v"
      proof (intro allI impI)
        fix j assume "j < middle + 1"
        then have "j \<le> middle" by simp
        then have "xs ! j \<le> xs ! middle"
          using sx mid(1) by (simp add: sorted_nth_mono)
        with lt show "xs ! j < v" by simp
      qed
      have p3: "\<forall>j. middle + 1 + (len - (half + 1)) \<le> j \<longrightarrow> j < length xs \<longrightarrow> v \<le> xs ! j"
        using "1.prems"(4) mid by (simp add: middle_def)
      from "1.IH"(1) [OF True half_def middle_def lt sx p1 p2 p3] eq show ?thesis
        by simp
    next
      case ge: False
      have eq: "lower_bound xs v first len = lower_bound xs v first half"
        using True ge by (subst lower_bound.simps) (simp add: Let_def half_def middle_def)
      have p1: "first + half \<le> length xs"
        using mid by (simp add: middle_def)
      have p3: "\<forall>j. first + half \<le> j \<longrightarrow> j < length xs \<longrightarrow> v \<le> xs ! j"
      proof (intro allI impI)
        fix j assume j: "first + half \<le> j" "j < length xs"
        then have "xs ! middle \<le> xs ! j"
          using sx by (simp add: sorted_nth_mono middle_def)
        with ge show "v \<le> xs ! j" by simp
      qed
      from "1.IH"(2) [OF True half_def middle_def ge sx p1 "1.prems"(3) p3] eq show ?thesis
        by simp
    qed
  qed
qed

lemma GetEventIndex_member:
  assumes s: "sorted_wrt (<) (m_event_node_indices ns)" and k: "k < length (m_event_node_indices ns)"
  shows "GetEventIndex ns (m_event_node_indices ns ! k) = k + 1"
proof -
  define xs where "xs = m_event_node_indices ns"
  define v where "v = xs ! k"
  define r where "r = lower_bound xs v 0 (length xs)"
  have sx: "sorted xs"
    using s by (simp add: xs_def strict_sorted_iff sorted_wrt_iff_nth_less sorted_iff_nth_mono_less less_imp_le)
  have strict: "\<And>i j. i < j \<Longrightarrow> j < length xs \<Longrightarrow> xs ! i < xs ! j"
    using s by (simp add: xs_def sorted_wrt_iff_nth_less)
  from lower_bound_spec [OF sx, of 0 "length xs" v]
  have r: "r \<le> length xs" "\<forall>j < r. xs ! j < v" "\<forall>j. r \<le> j \<longrightarrow> j < length xs \<longrightarrow> v \<le> xs ! j"
    by (simp_all add: r_def)
  have "\<not> k < r"
    using r(2) v_def by auto
  moreover have "\<not> r < k"
  proof
    assume "r < k"
    then have "xs ! r < xs ! k"
      using strict k by (simp add: xs_def)
    moreover have "v \<le> xs ! r"
      using r(3) \<open>r < k\<close> k by (simp add: xs_def)
    ultimately show False by (simp add: v_def)
  qed
  ultimately have "r = k" by simp
  then show ?thesis
    using k by (simp add: GetEventIndex_def Let_def r_def v_def xs_def)
qed

lemma GetEventIndex_other:
  assumes "node_index \<notin> set (m_event_node_indices ns)"
  shows "GetEventIndex ns node_index = 0"
proof -
  define xs where "xs = m_event_node_indices ns"
  define r where "r = lower_bound xs node_index 0 (length xs)"
  have "r \<le> length xs"
    using lower_bound_le [of xs node_index 0 "length xs"] by (simp add: r_def)
  then consider "r = length xs" | "r < length xs"
    by linarith
  then show ?thesis
  proof cases
    case 1
    then show ?thesis by (simp add: GetEventIndex_def Let_def r_def xs_def)
  next
    case 2
    then have "xs ! r \<in> set xs" by simp
    with assms have "xs ! r \<noteq> node_index" by (auto simp: xs_def)
    then show ?thesis
      by (simp add: GetEventIndex_def Let_def r_def xs_def)
  qed
qed

section \<open>Effects of the primitive operations of the builder\<close>

lemma bindE_Inl [simp]: "bindE (Inl e) f = Inl e"
  by (simp add: bindE_def)

lemma bindE_Inr [simp]: "bindE (Inr x) f = f x"
  by (simp add: bindE_def)

lemma bindE_Inr_iff: "bindE m f = Inr y \<longleftrightarrow> (\<exists>x. m = Inr x \<and> f x = Inr y)"
  by (cases m) simp_all

lemma all_topologies_complete: "t \<in> set all_topologies"
  by (cases t) (simp_all add: all_topologies_def)

lemma all_topologies_distinct: "distinct all_topologies"
  by (simp add: all_topologies_def)

lemma AddNode_loop_Inr:
  "AddNode_loop c n ts = Inr c' \<Longrightarrow> distinct ts \<Longrightarrow>
   (\<forall>t. m_node_children_0 c' t =
          (if t \<in> set ts then m_node_children_0 c t @ [[]] else m_node_children_0 c t)) \<and>
   (\<forall>t. m_node_children_1 c' t =
          (if t \<in> set ts then m_node_children_1 c t @ [[]] else m_node_children_1 c t)) \<and>
   (\<forall>t \<in> set ts. length (m_node_children_0 c t) = n \<and> length (m_node_children_1 c t) = n) \<and>
   c' = c\<lparr>m_node_children_0 := m_node_children_0 c', m_node_children_1 := m_node_children_1 c'\<rparr>"
proof (induction ts arbitrary: c)
  case Nil
  then show ?case by simp
next
  case (Cons i rest)
  define c1 where "c1 = c\<lparr>m_node_children_0 := (m_node_children_0 c)(i := m_node_children_0 c i @ [[]]),
                m_node_children_1 := (m_node_children_1 c)(i := m_node_children_1 c i @ [[]])\<rparr>"
  from Cons.prems(1) have len: "length (m_node_children_0 c i) = n" "length (m_node_children_1 c i) = n"
    and rec: "AddNode_loop c1 n rest = Inr c'"
    by (auto simp: c1_def split: if_splits)
  from Cons.prems(2) have d: "distinct rest" and i: "i \<notin> set rest"
    by simp_all
  note IH = Cons.IH [OF rec d]
  have a: "\<forall>t. m_node_children_0 c' t =
          (if t \<in> set (i # rest) then m_node_children_0 c t @ [[]] else m_node_children_0 c t)"
    using IH i by (auto simp: c1_def)
  have b: "\<forall>t. m_node_children_1 c' t =
          (if t \<in> set (i # rest) then m_node_children_1 c t @ [[]] else m_node_children_1 c t)"
    using IH i by (auto simp: c1_def)
  have oth: "\<And>t. t \<in> set rest \<Longrightarrow> m_node_children_0 c1 t = m_node_children_0 c t \<and>
      m_node_children_1 c1 t = m_node_children_1 c t"
    using i by (auto simp: c1_def)
  have l: "\<forall>t \<in> set (i # rest). length (m_node_children_0 c t) = n \<and> length (m_node_children_1 c t) = n"
  proof
    fix t assume "t \<in> set (i # rest)"
    then consider "t = i" | "t \<in> set rest" by auto
    then show "length (m_node_children_0 c t) = n \<and> length (m_node_children_1 c t) = n"
    proof cases
      case 1
      with len show ?thesis by simp
    next
      case 2
      with IH have "length (m_node_children_0 c1 t) = n \<and> length (m_node_children_1 c1 t) = n"
        by blast
      with oth [OF 2] show ?thesis by simp
    qed
  qed
  from IH have "c' = c1\<lparr>m_node_children_0 := m_node_children_0 c', m_node_children_1 := m_node_children_1 c'\<rparr>"
    by blast
  then have e: "c' = c\<lparr>m_node_children_0 := m_node_children_0 c', m_node_children_1 := m_node_children_1 c'\<rparr>"
    by (simp add: c1_def)
  from a b l e show ?case by blast
qed

lemma AddNode_Inr:
  assumes "AddNode c type desc aux = Inr (c', n)"
  shows "n = length (m_node_type (nodes_of c))"
    and "m_node_type (nodes_of c') = m_node_type (nodes_of c) @ [type]"
    and "m_description (nodes_of c') = m_description (nodes_of c) @ [desc]"
    and "m_aux_info (nodes_of c') = m_aux_info (nodes_of c) @ [aux]"
    and "m_event_node_indices (nodes_of c') = m_event_node_indices (nodes_of c)"
    and "m_node_children_0 c' t = m_node_children_0 c t @ [[]]"
    and "m_node_children_1 c' t = m_node_children_1 c t @ [[]]"
    and "length (m_node_children_0 c t) = n"
    and "length (m_node_children_1 c t) = n"
    and "c' = c\<lparr>m_command_hierarchy := m_command_hierarchy c',
                m_node_children_0 := m_node_children_0 c', m_node_children_1 := m_node_children_1 c'\<rparr>"
    and "m_topology (m_command_hierarchy c') = m_topology (m_command_hierarchy c)"
    and "length (m_aux_info (nodes_of c)) = n"
proof -
  from assms obtain ns where
    na: "Nodes_AddNode (nodes_of c) type desc aux None 0 = Inr (ns, n)" and
    lp: "AddNode_loop (set_nodes c ns) n all_topologies = Inr c'"
    by (auto simp: AddNode_def bindE_Inr_iff)
  from na have ns: "ns = (nodes_of c)\<lparr>m_node_type := m_node_type (nodes_of c) @ [type],
                     m_description := m_description (nodes_of c) @ [desc],
                     m_aux_info := m_aux_info (nodes_of c) @ [aux],
                     m_metadata := m_metadata (nodes_of c) @ [[]]\<rparr>"
    and n: "n = length (m_node_type (nodes_of c))"
    and la: "length (m_aux_info (nodes_of c)) = n"
    by (auto simp: Nodes_AddNode_def split: if_splits)
  note L = AddNode_loop_Inr [OF lp all_topologies_distinct]
  from L have fr: "c' = (set_nodes c ns)\<lparr>m_node_children_0 := m_node_children_0 c',
      m_node_children_1 := m_node_children_1 c'\<rparr>"
    by blast
  from arg_cong [OF fr, of m_command_hierarchy]
  have h: "m_command_hierarchy c' = m_command_hierarchy (set_nodes c ns)"
    by simp
  show "n = length (m_node_type (nodes_of c))" by (rule n)
  show "m_node_type (nodes_of c') = m_node_type (nodes_of c) @ [type]"
    using h by (simp add: set_nodes_def ns)
  show "m_description (nodes_of c') = m_description (nodes_of c) @ [desc]"
    using h by (simp add: set_nodes_def ns)
  show "m_aux_info (nodes_of c') = m_aux_info (nodes_of c) @ [aux]"
    using h by (simp add: set_nodes_def ns)
  show "m_event_node_indices (nodes_of c') = m_event_node_indices (nodes_of c)"
    using h by (simp add: set_nodes_def ns)
  show "m_node_children_0 c' t = m_node_children_0 c t @ [[]]"
    using L all_topologies_complete [of t] by (simp add: set_nodes_def)
  show "m_node_children_1 c' t = m_node_children_1 c t @ [[]]"
    using L all_topologies_complete [of t] by (simp add: set_nodes_def)
  show "length (m_node_children_0 c t) = n"
    using L all_topologies_complete [of t] by (auto simp: set_nodes_def)
  show "length (m_node_children_1 c t) = n"
    using L all_topologies_complete [of t] by (auto simp: set_nodes_def)
  show "c' = c\<lparr>m_command_hierarchy := m_command_hierarchy c',
                m_node_children_0 := m_node_children_0 c', m_node_children_1 := m_node_children_1 c'\<rparr>"
    by (subst fr) (simp add: set_nodes_def h)
  show "m_topology (m_command_hierarchy c') = m_topology (m_command_hierarchy c)"
    using h by (simp add: set_nodes_def)
  show "length (m_aux_info (nodes_of c)) = n" by (rule la)
qed


lemma AddChild_Inr:
  assumes "AddChild c t p ch = Inr c'"
  shows "p < length (m_node_children_0 c t)"
    and "c' = c\<lparr>m_node_children_0 := (m_node_children_0 c)
                 (t := (m_node_children_0 c t)[p := m_node_children_0 c t ! p @ [ch]])\<rparr>"
  using assms by (auto simp: AddChild_def split: if_splits)

lemma AddSharedChild_Inr:
  assumes "AddSharedChild c t p ch = Inr c'"
  shows "p < length (m_node_children_1 c t)"
    and "c' = c\<lparr>m_node_children_1 := (m_node_children_1 c)
                 (t := (m_node_children_1 c t)[p := m_node_children_1 c t ! p @ [ch]])\<rparr>"
  using assms by (auto simp: AddSharedChild_def split: if_splits)

lemma grows_refl [simp]: "grows c c"
  by (simp add: grows_def)

lemma grows_trans: "grows a b \<Longrightarrow> grows b c \<Longrightarrow> grows a c"
  by (auto simp: grows_def intro: prefix_order.trans)

lemma store_ext_refl [simp]: "store_ext c c"
  by (simp add: store_ext_def)

lemma grows_store_ext: "grows c c' \<Longrightarrow> store_ext c c'"
  by (simp add: grows_def store_ext_def)

lemma store_ext_trans:
  assumes "store_ext a b" and "store_ext b c"
  shows "store_ext a c"
proof -
  from assms(1) obtain n1 where 1: "prefix (m_node_type (nodes_of a)) (m_node_type (nodes_of b))"
    "prefix (m_aux_info (nodes_of a)) (m_aux_info (nodes_of b))"
    "m_event_node_indices (nodes_of b) = m_event_node_indices (nodes_of a) @ n1"
    "sorted_wrt (<) n1"
    "\<forall>e \<in> set n1. length (m_node_type (nodes_of a)) \<le> e \<and> e < length (m_node_type (nodes_of b))"
    "m_topology (m_command_hierarchy b) = m_topology (m_command_hierarchy a)"
    by (auto simp: store_ext_def)
  from assms(2) obtain n2 where 2: "prefix (m_node_type (nodes_of b)) (m_node_type (nodes_of c))"
    "prefix (m_aux_info (nodes_of b)) (m_aux_info (nodes_of c))"
    "m_event_node_indices (nodes_of c) = m_event_node_indices (nodes_of b) @ n2"
    "sorted_wrt (<) n2"
    "\<forall>e \<in> set n2. length (m_node_type (nodes_of b)) \<le> e \<and> e < length (m_node_type (nodes_of c))"
    "m_topology (m_command_hierarchy c) = m_topology (m_command_hierarchy b)"
    by (auto simp: store_ext_def)
  have l1: "length (m_node_type (nodes_of a)) \<le> length (m_node_type (nodes_of b))"
    using 1(1) by (rule prefix_length_le)
  have l2: "length (m_node_type (nodes_of b)) \<le> length (m_node_type (nodes_of c))"
    using 2(1) by (rule prefix_length_le)
  have s: "sorted_wrt (<) (n1 @ n2)"
    using 1(4,5) 2(4,5) by (fastforce simp: sorted_wrt_append)
  have r: "\<forall>e \<in> set (n1 @ n2). length (m_node_type (nodes_of a)) \<le> e \<and>
      e < length (m_node_type (nodes_of c))"
    using 1(5) 2(5) l1 l2 by fastforce
  have "m_event_node_indices (nodes_of c) = m_event_node_indices (nodes_of a) @ (n1 @ n2)"
    using 1(3) 2(3) by simp
  moreover have "m_topology (m_command_hierarchy c) = m_topology (m_command_hierarchy a)"
    using 1(6) 2(6) by simp
  ultimately show ?thesis
    using s r 1(1,2) 2(1,2) unfolding store_ext_def by (blast intro: prefix_order.trans)
qed

lemma ev_inv_store_ext:
  assumes "ev_inv (nodes_of c)" and "store_ext c c'"
  shows "ev_inv (nodes_of c')"
proof -
  from assms(2) obtain new where n: "prefix (m_node_type (nodes_of c)) (m_node_type (nodes_of c'))"
    "m_event_node_indices (nodes_of c') = m_event_node_indices (nodes_of c) @ new"
    "sorted_wrt (<) new"
    "\<forall>e \<in> set new. length (m_node_type (nodes_of c)) \<le> e \<and> e < length (m_node_type (nodes_of c'))"
    by (auto simp: store_ext_def)
  have l: "length (m_node_type (nodes_of c)) \<le> length (m_node_type (nodes_of c'))"
    using n(1) by (rule prefix_length_le)
  from assms(1) have a: "sorted_wrt (<) (m_event_node_indices (nodes_of c))"
    "\<forall>e \<in> set (m_event_node_indices (nodes_of c)). e < length (m_node_type (nodes_of c))"
    by (simp_all add: ev_inv_def)
  have "sorted_wrt (<) (m_event_node_indices (nodes_of c) @ new)"
    using a n(3,4) by (fastforce simp: sorted_wrt_append)
  moreover have "\<forall>e \<in> set (m_event_node_indices (nodes_of c) @ new). e < length (m_node_type (nodes_of c'))"
    using a(2) n(4) l by fastforce
  ultimately show ?thesis
    by (simp add: ev_inv_def n(2))
qed

lemma AddNode_grows: "AddNode c type desc aux = Inr (c', n) \<Longrightarrow> grows c c'"
proof -
  assume a: "AddNode c type desc aux = Inr (c', n)"
  note A = AddNode_Inr [OF a]
  from arg_cong [OF A(10), of m_dcb_ib_stack] have "m_dcb_ib_stack c' = m_dcb_ib_stack c"
    by simp
  moreover from arg_cong [OF A(10), of m_has_unended_vulkan_marker]
  have "m_has_unended_vulkan_marker c' = m_has_unended_vulkan_marker c"
    by simp
  ultimately show ?thesis
    by (simp add: grows_def A(2,4,5,11))
qed

lemma AddChild_grows: "AddChild c t p ch = Inr c' \<Longrightarrow> grows c c'"
  by (drule AddChild_Inr(2)) (simp add: grows_def)

lemma AddSharedChild_grows: "AddSharedChild c t p ch = Inr c' \<Longrightarrow> grows c c'"
  by (drule AddSharedChild_Inr(2)) (simp add: grows_def)

lemma AddChild_in_grows: "AddChild_in c ts p ch = Inr c' \<Longrightarrow> grows c c'"
proof (induction ts arbitrary: c)
  case Nil
  then show ?case by simp
next
  case (Cons t ts)
  then obtain c1 where "AddChild c t p ch = Inr c1" "AddChild_in c1 ts p ch = Inr c'"
    by (auto simp: bindE_Inr_iff)
  with Cons.IH show ?case
    by (blast intro: grows_trans AddChild_grows)
qed

lemma AddSharedChild_in_grows: "AddSharedChild_in c ts p ch = Inr c' \<Longrightarrow> grows c c'"
proof (induction ts arbitrary: c)
  case Nil
  then show ?case by simp
next
  case (Cons t ts)
  then obtain c1 where "AddSharedChild c t p ch = Inr c1" "AddSharedChild_in c1 ts p ch = Inr c'"
    by (auto simp: bindE_Inr_iff)
  with Cons.IH show ?case
    by (blast intro: grows_trans AddSharedChild_grows)
qed

lemma AddSharedChildren_of_grows: "AddSharedChildren_of c ts p chs = Inr c' \<Longrightarrow> grows c c'"
proof (induction chs arbitrary: c)
  case Nil
  then show ?case by simp
next
  case (Cons ch chs)
  then obtain c1 where "AddSharedChild_in c ts p ch = Inr c1"
    "AddSharedChildren_of c1 ts p chs = Inr c'"
    by (auto split: sum.splits)
  with Cons.IH show ?case
    by (blast intro: grows_trans AddSharedChild_in_grows)
qed

lemma AddSharedChild_each_grows: "AddSharedChild_each c t ps ch = Inr c' \<Longrightarrow> grows c c'"
proof (induction ps arbitrary: c)
  case Nil
  then show ?case by simp
next
  case (Cons p ps)
  then obtain c1 where "AddSharedChild c t p ch = Inr c1"
    "AddSharedChild_each c1 t ps ch = Inr c'"
    by (auto split: sum.splits)
  with Cons.IH show ?case
    by (blast intro: grows_trans AddSharedChild_grows)
qed

lemma packet_field_loop_grows:
  "packet_field_loop env mem si va ce header fs pn c idxs ed = Inr (c', ed') \<Longrightarrow> grows c c'"
proof (induction idxs arbitrary: c ed)
  case Nil
  then show ?case by simp
next
  case (Cons i rest)
  show ?case
  proof (cases "fs ! i")
    case (PacketField m_name m_dword m_mask m_shift m_enum_handle)
    show ?thesis
    proof (cases "m_dword > type7_count env header")
      case True
      with Cons.prems PacketField show ?thesis
        by (auto split: if_splits)
    next
      case False
      with Cons.prems PacketField obtain desc c1 fn c2 where
        "AddNode c kFieldNode desc (RegFieldNodeAux ce) = Inr (c1, fn)"
        "AddChild_in c1 four_topologies pn fn = Inr c2"
        "packet_field_loop env mem si va ce header fs pn c2 rest m_dword = Inr (c', ed')"
        by (auto simp: Let_def split: if_splits option.splits sum.splits)
      with Cons.IH show ?thesis
        by (blast intro: grows_trans AddNode_grows AddChild_in_grows)
    qed
  qed
qed

lemma raw_dword_loop_grows:
  "raw_dword_loop mem si va ce pn c idxs = Inr c' \<Longrightarrow> grows c c'"
proof (induction idxs arbitrary: c)
  case Nil
  then show ?case by simp
next
  case (Cons i rest)
  then obtain desc c1 fn c2 where
    "AddNode c kFieldNode desc (RegFieldNodeAux ce) = Inr (c1, fn)"
    "AddChild_in c1 four_topologies pn fn = Inr c2"
    "raw_dword_loop mem si va ce pn c2 rest = Inr c'"
    by (auto split: option.splits sum.splits)
  with Cons.IH show ?case
    by (blast intro: grows_trans AddNode_grows AddChild_in_grows)
qed

lemma AppendPacketFieldNodes_grows:
  "AppendPacketFieldNodes env mem c si va ce header info pn fs fl = Inr c' \<Longrightarrow> grows c c'"
  by (cases info)
     (auto simp: AppendPacketFieldNodes_def Let_def bindE_Inr_iff split: if_splits
           intro: grows_trans packet_field_loop_grows raw_dword_loop_grows)

lemma reg_field_loop_grows: "reg_field_loop rn rv c fs = Inr c' \<Longrightarrow> grows c c'"
proof (induction fs arbitrary: c)
  case Nil
  then show ?case by simp
next
  case (Cons f rest)
  then obtain desc c1 fn c2 where
    "AddNode c kFieldNode desc (RegFieldNodeAux False) = Inr (c1, fn)"
    "AddChild_in c1 four_topologies rn fn = Inr c2"
    "reg_field_loop rn rv c2 rest = Inr c'"
    by (cases f) (auto simp: Let_def split: sum.splits)
  with Cons.IH show ?case
    by (blast intro: grows_trans AddNode_grows AddChild_in_grows)
qed

lemma AddRegisterNode_grows: "AddRegisterNode env c reg rv = Inr (c', n) \<Longrightarrow> grows c c'"
  by (auto simp: AddRegisterNode_def bindE_Inr_iff split: RegInfo.splits
        intro: grows_trans AddNode_grows reg_field_loop_grows)

lemma reg_loop_grows: "reg_loop env mem si va pn c idxs ra = Inr c' \<Longrightarrow> grows c c'"
proof (induction idxs arbitrary: c ra)
  case Nil
  then show ?case by simp
next
  case (Cons i rest)
  then obtain rv c1 rn c2 where
    "AddRegisterNode env c ra rv = Inr (c1, rn)"
    "AddChild_in c1 four_topologies pn rn = Inr c2"
    "reg_loop env mem si va pn c2 rest (ra + 1) = Inr c'"
    by (auto split: option.splits sum.splits)
  with Cons.IH show ?case
    by (blast intro: grows_trans AddRegisterNode_grows AddChild_in_grows)
qed

lemma AddPacketNode_grows:
  "AddPacketNode env mem c si va ce type header = Inr (c', n) \<Longrightarrow> grows c c'"
  by (auto simp: AddPacketNode_def AppendRegNodes_def bindE_Inr_iff
        split: if_splits option.splits)
     (blast intro: grows_trans AddNode_grows AppendPacketFieldNodes_grows reg_loop_grows)+

section \<open>The IB stack\<close>

lemma GetIbNodeType_prefix:
  assumes "prefix (m_node_type ns) (m_node_type ns')" "prefix (m_aux_info ns) (m_aux_info ns')"
    and "GetIbNodeType ns y = Inr t"
  shows "GetIbNodeType ns' y = Inr t"
proof -
  from assms(3) have y: "y < length (m_aux_info ns)" "y < length (m_node_type ns)"
    by (auto simp: GetIbNodeType_def ib_node_of_def split: if_splits sum.splits)
  from assms(1,2) obtain a b where "m_node_type ns' = m_node_type ns @ a"
    "m_aux_info ns' = m_aux_info ns @ b"
    by (auto simp: prefix_def)
  with y have "ib_node_of ns' y = ib_node_of ns y"
    by (simp add: ib_node_of_def nth_append)
  with assms(3) show ?thesis
    by (simp add: GetIbNodeType_def)
qed


lemma nearest_non_chain_found:
  assumes "\<forall>y \<in> set tops. GetIbNodeType ns y = Inr (Some kChain)"
    and "GetIbNodeType ns x = Inr t" and "t \<noteq> Some kChain"
  shows "nearest_non_chain ns (tops @ x # below) p = Inr x"
  using assms(1)
proof (induction tops)
  case Nil
  with assms(2,3) show ?case by simp
next
  case (Cons y ys)
  then show ?case by simp
qed

lemma pop_chain_ibs_run:
  assumes x: "GetIbNodeType ns x = Inr t" "t \<noteq> Some kChain"
  shows "\<forall>y \<in> set cis. GetIbNodeType ns y = Inr (Some kChain) \<Longrightarrow>
         GetIbNodeType ns (last (keep @ [x] @ cis)) = Inr ty \<Longrightarrow>
         pop_chain_ibs ns (keep @ [x] @ cis) ty = Inr (keep @ [x])"
proof (induction cis arbitrary: ty rule: rev_induct)
  case Nil
  with x have "ty \<noteq> Some kChain" by simp
  then show ?case
    by (subst pop_chain_ibs.simps) simp
next
  case (snoc y ys)
  from snoc.prems have ty: "ty = Some kChain"
    by simp
  have bl: "butlast (keep @ [x] @ ys @ [y]) = keep @ [x] @ ys"
    by (simp add: butlast_append)
  have "\<exists>ty'. GetIbNodeType ns (last (keep @ [x] @ ys)) = Inr ty'"
  proof (cases "ys = []")
    case True
    with x show ?thesis by simp
  next
    case False
    then have "last (keep @ [x] @ ys) = last ys" by simp
    moreover have "last ys \<in> set ys" using False by simp
    ultimately show ?thesis using snoc.prems(1) by auto
  qed
  then obtain ty' where ty': "GetIbNodeType ns (last (keep @ [x] @ ys)) = Inr ty'"
    by blast
  from snoc.prems(1) have "\<forall>y \<in> set ys. GetIbNodeType ns y = Inr (Some kChain)"
    by simp
  from snoc.IH [OF this ty'] have "pop_chain_ibs ns (keep @ [x] @ ys) ty' = Inr (keep @ [x])" .
  then show ?case
    using ty ty' bl by (subst pop_chain_ibs.simps) simp
qed

lemma OnIbEnd_pop_run:
  assumes "stack = keep @ [x] @ cis"
    and "\<forall>y \<in> set cis. GetIbNodeType ns y = Inr (Some kChain)"
    and "GetIbNodeType ns x = Inr t" and "t \<noteq> Some kChain"
  shows "OnIbEnd_pop ns stack = Inr keep"
proof -
  have "\<exists>ty. GetIbNodeType ns (last (keep @ [x] @ cis)) = Inr ty"
  proof (cases "cis = []")
    case True
    with assms(3) show ?thesis by simp
  next
    case False
    then have "last (keep @ [x] @ cis) = last cis" by simp
    moreover have "last cis \<in> set cis" using False by simp
    ultimately show ?thesis using assms(2) by auto
  qed
  then obtain ty where ty: "GetIbNodeType ns (last (keep @ [x] @ cis)) = Inr ty"
    by blast
  from pop_chain_ibs_run [OF assms(3,4) assms(2) ty] ty show ?thesis
    by (simp add: OnIbEnd_pop_def assms(1))
qed

lemma OnVulkanMarkerEnd_frame:
  assumes "OnVulkanMarkerEnd env c = Inr c'"
  shows "m_dcb_ib_stack c' = m_dcb_ib_stack c" and "m_command_hierarchy c' = m_command_hierarchy c"
    and "m_node_children_0 c' = m_node_children_0 c" and "m_node_children_1 c' = m_node_children_1 c"
  using assms by (auto simp: OnVulkanMarkerEnd_def bindE_Inr_iff split: if_splits)

lemma OnIbEnd_Inr:
  assumes "OnIbEnd env c si i info = Inr c'"
  shows "OnIbEnd_pop (nodes_of c) (m_dcb_ib_stack c) = Inr (m_dcb_ib_stack c')"
    and "m_command_hierarchy c' = m_command_hierarchy c"
    and "m_node_children_0 c' = m_node_children_0 c" and "m_node_children_1 c' = m_node_children_1 c"
proof -
  from assms obtain stack c1 where p: "OnIbEnd_pop (nodes_of c) (m_dcb_ib_stack c) = Inr stack"
    and v: "OnVulkanMarkerEnd env (c\<lparr>m_dcb_ib_stack := stack\<rparr>) = Inr c1"
    and c': "c' = c1\<lparr>m_cmd_begin_packet_node_indices := [], m_cmd_begin_event_node_indices := []\<rparr>"
    by (auto simp: OnIbEnd_def bindE_Inr_iff)
  note F = OnVulkanMarkerEnd_frame [OF v]
  show "OnIbEnd_pop (nodes_of c) (m_dcb_ib_stack c) = Inr (m_dcb_ib_stack c')"
    using p F(1) by (simp add: c')
  show "m_command_hierarchy c' = m_command_hierarchy c" using F(2) by (simp add: c')
  show "m_node_children_0 c' = m_node_children_0 c" using F(3) by (simp add: c')
  show "m_node_children_1 c' = m_node_children_1 c" using F(4) by (simp add: c')
qed

lemma OnIbEnd_not_underflow:
  assumes "OnIbEnd_pop (nodes_of c) (m_dcb_ib_stack c) = Inr keep"
  shows "OnIbEnd env c si i info \<noteq> Inl OutOfBounds"
  using assms by (auto simp: OnIbEnd_def OnVulkanMarkerEnd_def split: if_splits)


lemma IbNode_type:
  assumes "IbNode k ib_index type sz fc = Inr aux"
  shows "\<exists>ix f. aux = IbNodeAux (IbType_to_u8 type) ix sz f"
  using assms by (auto simp: IbNode_def Let_def split: if_splits)

lemma OnIbStart_Inr:
  assumes r: "OnIbStart env c si ib_index ib_info type = Inr c'"
  shows "m_dcb_ib_stack c' = m_dcb_ib_stack c @ [length (m_node_type (nodes_of c))]"
    and "m_node_type (nodes_of c') = m_node_type (nodes_of c) @ [kIbNode]"
    and "\<exists>aux. m_aux_info (nodes_of c') = m_aux_info (nodes_of c) @ [aux]"
    and "m_event_node_indices (nodes_of c') = m_event_node_indices (nodes_of c)"
    and "GetIbNodeType (nodes_of c') (length (m_node_type (nodes_of c))) = Inr (Some type)"
    and "\<exists>parent.
           (if m_flatten_chain_nodes c \<and> type = kChain
            then nearest_non_chain (nodes_of c') (rev (m_dcb_ib_stack c))
                   (if m_dcb_ib_stack c \<noteq> [] then last (m_dcb_ib_stack c)
                    else m_cur_submit_node_index c)
            else Inr (if m_dcb_ib_stack c \<noteq> [] then last (m_dcb_ib_stack c)
                      else m_cur_submit_node_index c)) = Inr parent \<and>
           parent < length (m_node_type (nodes_of c)) + 1 \<and>
           (\<forall>t. m_node_children_0 c' t =
              (if t = kEngineTopology \<or> t = kSubmitTopology
               then (m_node_children_0 c t @ [[]])
                      [parent := (m_node_children_0 c t @ [[]]) ! parent @
                                 [length (m_node_type (nodes_of c))]]
               else m_node_children_0 c t @ [[]]))"
    and "m_node_children_1 c' t = m_node_children_1 c t @ [[]]"
proof -
  obtain va sz skip where info: "ib_info = IndirectBufferInfo va sz skip"
    by (cases ib_info)
  define n where "n = length (m_node_type (nodes_of c))"
  define parent0 where "parent0 = (if m_dcb_ib_stack c \<noteq> [] then last (m_dcb_ib_stack c)
                    else m_cur_submit_node_index c)"
  from r obtain aux c1 n' parent c2 c3 where
    ib: "IbNode (kMaxNumIbsBits env) ib_index type sz (\<not> skip) = Inr aux" and
    an: "AddNode c kIbNode (ib_description ib_index ib_info type) aux = Inr (c1, n')" and
    pa: "(if m_flatten_chain_nodes c1 \<and> type = kChain
          then nearest_non_chain (nodes_of c1) (rev (m_dcb_ib_stack c1))
                 (if m_dcb_ib_stack c1 \<noteq> [] then last (m_dcb_ib_stack c1)
                  else m_cur_submit_node_index c1)
          else Inr (if m_dcb_ib_stack c1 \<noteq> [] then last (m_dcb_ib_stack c1)
                    else m_cur_submit_node_index c1)) = Inr parent" and
    a1: "AddChild c1 kEngineTopology parent n' = Inr c2" and
    a2: "AddChild c2 kSubmitTopology parent n' = Inr c3" and
    c': "c' = c3\<lparr>m_dcb_ib_stack := m_dcb_ib_stack c3 @ [n'],
              m_cmd_begin_packet_node_indices := [],
              m_cmd_begin_event_node_indices := []\<rparr>"
    by (auto simp: OnIbStart_def info bindE_Inr_iff Let_def)
  note A = AddNode_Inr [OF an]
  have n': "n' = n" using A(1) by (simp add: n_def)
  have fr: "m_dcb_ib_stack c1 = m_dcb_ib_stack c" "m_flatten_chain_nodes c1 = m_flatten_chain_nodes c"
    "m_cur_submit_node_index c1 = m_cur_submit_node_index c"
    using arg_cong [OF A(10), of m_dcb_ib_stack] arg_cong [OF A(10), of m_flatten_chain_nodes]
      arg_cong [OF A(10), of m_cur_submit_node_index]
    by simp_all
  note C1 = AddChild_Inr [OF a1]
  note C2 = AddChild_Inr [OF a2]
  have nodes: "nodes_of c' = nodes_of c1"
    by (simp add: c' C2(2)) (simp add: C1(2))
  have stack: "m_dcb_ib_stack c3 = m_dcb_ib_stack c"
    by (simp add: C2(2)) (simp add: C1(2) fr)
  show "m_dcb_ib_stack c' = m_dcb_ib_stack c @ [length (m_node_type (nodes_of c))]"
    using stack by (simp add: c' n' n_def)
  show "m_node_type (nodes_of c') = m_node_type (nodes_of c) @ [kIbNode]"
    by (simp add: nodes A(2))
  show "\<exists>aux. m_aux_info (nodes_of c') = m_aux_info (nodes_of c) @ [aux]"
    by (simp add: nodes A(4))
  show "m_event_node_indices (nodes_of c') = m_event_node_indices (nodes_of c)"
    by (simp add: nodes A(5))
  from IbNode_type [OF ib] obtain ix f where aux: "aux = IbNodeAux (IbType_to_u8 type) ix sz f"
    by blast
  have la: "length (m_aux_info (nodes_of c)) = n"
    using A(12) n' by simp
  have "(m_aux_info (nodes_of c) @ [aux]) ! n = aux"
    unfolding la [symmetric] by (rule nth_append_length)
  moreover have "(m_node_type (nodes_of c) @ [kIbNode]) ! n = kIbNode"
    unfolding n_def by (rule nth_append_length)
  ultimately have "ib_node_of (nodes_of c1) n = Inr (IbType_to_u8 type, ix, sz, f)"
    using la by (simp add: ib_node_of_def A(2,4) aux n_def)
  then show "GetIbNodeType (nodes_of c') (length (m_node_type (nodes_of c))) = Inr (Some type)"
    by (simp add: GetIbNodeType_def nodes n_def IbType_roundtrip)
  have t0: "\<And>t. m_node_children_0 c1 t = m_node_children_0 c t @ [[]]"
    by (rule A(6))
  have pl: "parent < n + 1"
    using C1(1) A(8) [of kEngineTopology] n' by (simp add: t0)
  have tabs: "\<forall>t. m_node_children_0 c' t =
              (if t = kEngineTopology \<or> t = kSubmitTopology
               then (m_node_children_0 c t @ [[]])
                      [parent := (m_node_children_0 c t @ [[]]) ! parent @ [n]]
               else m_node_children_0 c t @ [[]])"
    by (simp add: c' C2(2)) (simp add: C1(2) t0 n')
  from pa pl tabs show "\<exists>parent.
           (if m_flatten_chain_nodes c \<and> type = kChain
            then nearest_non_chain (nodes_of c') (rev (m_dcb_ib_stack c))
                   (if m_dcb_ib_stack c \<noteq> [] then last (m_dcb_ib_stack c)
                    else m_cur_submit_node_index c)
            else Inr (if m_dcb_ib_stack c \<noteq> [] then last (m_dcb_ib_stack c)
                      else m_cur_submit_node_index c)) = Inr parent \<and>
           parent < length (m_node_type (nodes_of c)) + 1 \<and>
           (\<forall>t. m_node_children_0 c' t =
              (if t = kEngineTopology \<or> t = kSubmitTopology
               then (m_node_children_0 c t @ [[]])
                      [parent := (m_node_children_0 c t @ [[]]) ! parent @
                                 [length (m_node_type (nodes_of c))]]
               else m_node_children_0 c t @ [[]]))"
    unfolding fr nodes n_def by blast
  show "m_node_children_1 c' t = m_node_children_1 c t @ [[]]"
    by (simp add: c' C2(2)) (simp add: C1(2) A(7))
qed


lemma AddNode_loop_succeeds:
  "\<forall>t \<in> set ts. length (m_node_children_0 c t) = n \<and> length (m_node_children_1 c t) = n \<Longrightarrow>
   distinct ts \<Longrightarrow> \<exists>c'. AddNode_loop c n ts = Inr c'"
proof (induction ts arbitrary: c)
  case Nil
  then show ?case by simp
next
  case (Cons i rest)
  define c1 where "c1 = c\<lparr>m_node_children_0 := (m_node_children_0 c)(i := m_node_children_0 c i @ [[]]),
                m_node_children_1 := (m_node_children_1 c)(i := m_node_children_1 c i @ [[]])\<rparr>"
  from Cons.prems have "\<forall>t \<in> set rest. length (m_node_children_0 c1 t) = n \<and>
      length (m_node_children_1 c1 t) = n"
    by (auto simp: c1_def)
  moreover from Cons.prems have "distinct rest" by simp
  ultimately obtain c' where "AddNode_loop c1 n rest = Inr c'"
    using Cons.IH by blast
  with Cons.prems(1) show ?case
    by (simp add: c1_def)
qed

lemma AddNode_succeeds:
  assumes "creator_wf c"
  shows "\<exists>c'. AddNode c type desc aux = Inr (c', length (m_node_type (nodes_of c)))"
proof -
  define ns where "ns = (nodes_of c)\<lparr>m_node_type := m_node_type (nodes_of c) @ [type],
                     m_description := m_description (nodes_of c) @ [desc],
                     m_aux_info := m_aux_info (nodes_of c) @ [aux],
                     m_metadata := m_metadata (nodes_of c) @ [[]]\<rparr>"
  have na: "Nodes_AddNode (nodes_of c) type desc aux None 0 =
      Inr (ns, length (m_node_type (nodes_of c)))"
    using assms by (simp add: Nodes_AddNode_def creator_wf_def ns_def)
  have "\<forall>t \<in> set all_topologies.
      length (m_node_children_0 (set_nodes c ns) t) = length (m_node_type (nodes_of c)) \<and>
      length (m_node_children_1 (set_nodes c ns) t) = length (m_node_type (nodes_of c))"
    using assms by (simp add: creator_wf_def set_nodes_def)
  from AddNode_loop_succeeds [OF this all_topologies_distinct] na show ?thesis
    by (auto simp: AddNode_def)
qed

text \<open>
  Claim C5. With \<open>flatten_chain_nodes\<close> enabled, when \<open>OnIbStart\<close> is called with kind Chain
  while the IB stack is \<open>keep @ [x] @ cis\<close>, where \<open>x\<close> is an Ib node that is not of type Chain
  and every entry of \<open>cis\<close> above it is an Ib node of type Chain, the call returns, the new
  Ib node \<open>n\<close> is appended to the primary children of \<open>x\<close> in the Engine and the Submit view,
  and no other primary child list of these views changes.
\<close>

theorem OnIbStart_flatten_chain_parent:
  assumes wf: "creator_wf c"
    and bits: "kMaxNumIbsBits env \<le> 8" "unat ib_index < 2 ^ kMaxNumIbsBits env"
    and flat: "m_flatten_chain_nodes c"
    and stack: "m_dcb_ib_stack c = keep @ [x] @ cis"
    and cis: "\<forall>y \<in> set cis. GetIbNodeType (nodes_of c) y = Inr (Some kChain)"
    and x: "GetIbNodeType (nodes_of c) x = Inr t" "t \<noteq> Some kChain"
  shows "\<exists>c'. OnIbStart env c si ib_index ib_info kChain = Inr c' \<and>
           m_node_type (nodes_of c') = m_node_type (nodes_of c) @ [kIbNode] \<and>
           GetIbNodeType (nodes_of c') (length (m_node_type (nodes_of c))) = Inr (Some kChain) \<and>
           m_node_children_0 c' kEngineTopology =
             (m_node_children_0 c kEngineTopology)
               [x := m_node_children_0 c kEngineTopology ! x @ [length (m_node_type (nodes_of c))]]
             @ [[]] \<and>
           m_node_children_0 c' kSubmitTopology =
             (m_node_children_0 c kSubmitTopology)
               [x := m_node_children_0 c kSubmitTopology ! x @ [length (m_node_type (nodes_of c))]]
             @ [[]]"
proof -
  obtain va sz skip where info: "ib_info = IndirectBufferInfo va sz skip"
    by (cases ib_info)
  define n where "n = length (m_node_type (nodes_of c))"
  define aux where "aux = IbNodeAux (IbType_to_u8 kChain) (ucast ib_index) sz
                (if \<not> skip then 1 else 0)"
  have ib: "IbNode (kMaxNumIbsBits env) ib_index kChain sz (\<not> skip) = Inr aux"
    unfolding aux_def by (rule IbNode_Inr [OF bits])
  obtain c1 where an: "AddNode c kIbNode (ib_description ib_index ib_info kChain) aux = Inr (c1, n)"
    using AddNode_succeeds [OF wf] n_def by blast
  note A = AddNode_Inr [OF an]
  have fr: "m_dcb_ib_stack c1 = m_dcb_ib_stack c" "m_flatten_chain_nodes c1 = m_flatten_chain_nodes c"
    using arg_cong [OF A(10), of m_dcb_ib_stack] arg_cong [OF A(10), of m_flatten_chain_nodes]
    by simp_all
  have pre: "prefix (m_node_type (nodes_of c)) (m_node_type (nodes_of c1))"
    "prefix (m_aux_info (nodes_of c)) (m_aux_info (nodes_of c1))"
    by (simp_all add: A(2,4))
  have cis1: "\<forall>y \<in> set (rev cis). GetIbNodeType (nodes_of c1) y = Inr (Some kChain)"
    using cis GetIbNodeType_prefix [OF pre] by simp
  have x1: "GetIbNodeType (nodes_of c1) x = Inr t"
    using x(1) by (rule GetIbNodeType_prefix [OF pre])
  have near: "nearest_non_chain (nodes_of c1) (rev (m_dcb_ib_stack c1)) p = Inr x" for p
    using nearest_non_chain_found [OF cis1 x1 x(2), of "rev keep" p] by (simp add: fr stack)
  have xl: "x < n"
    using x(1) A(12)
    by (auto simp: GetIbNodeType_def ib_node_of_def split: if_splits sum.splits)
  have l0: "length (m_node_children_0 c t') = n" for t'
    by (rule A(8))
  define c2 where "c2 = c1\<lparr>m_node_children_0 := (m_node_children_0 c1)
      (kEngineTopology := (m_node_children_0 c1 kEngineTopology)
         [x := m_node_children_0 c1 kEngineTopology ! x @ [n]])\<rparr>"
  define c3 where "c3 = c2\<lparr>m_node_children_0 := (m_node_children_0 c2)
      (kSubmitTopology := (m_node_children_0 c2 kSubmitTopology)
         [x := m_node_children_0 c2 kSubmitTopology ! x @ [n]])\<rparr>"
  define c' where "c' = c3\<lparr>m_dcb_ib_stack := m_dcb_ib_stack c3 @ [n],
              m_cmd_begin_packet_node_indices := [],
              m_cmd_begin_event_node_indices := []\<rparr>"
  have a1: "AddChild c1 kEngineTopology x n = Inr c2"
    using xl l0 by (simp add: AddChild_def c2_def A(6))
  have a2: "AddChild c2 kSubmitTopology x n = Inr c3"
    using xl l0 by (simp add: AddChild_def c3_def c2_def A(6))
  have run: "OnIbStart env c si ib_index ib_info kChain = Inr c'"
    using flat by (simp add: OnIbStart_def info ib an [unfolded info] fr(2) near a1 a2 c'_def Let_def)
  note R = OnIbStart_Inr [OF run]
  have e: "m_node_children_0 c' kEngineTopology =
             (m_node_children_0 c kEngineTopology)
               [x := m_node_children_0 c kEngineTopology ! x @ [n]] @ [[]]"
    using xl l0 [of kEngineTopology]
    by (simp add: c'_def c3_def c2_def A(6) list_update_append nth_append)
  have s: "m_node_children_0 c' kSubmitTopology =
             (m_node_children_0 c kSubmitTopology)
               [x := m_node_children_0 c kSubmitTopology ! x @ [n]] @ [[]]"
    using xl l0 [of kSubmitTopology]
    by (simp add: c'_def c3_def c2_def A(6) list_update_append nth_append)
  from run R(2,5) e s show ?thesis
    unfolding n_def by blast
qed

section \<open>Frame properties of the callbacks\<close>

lemma grows_upd_m_capture_data_ptr [simp]:
  "grows (c\<lparr>m_capture_data_ptr := v\<rparr>) c' = grows c c'"
  "grows c (c'\<lparr>m_capture_data_ptr := v\<rparr>) = grows c c'"
  by (simp_all add: grows_def store_ext_def packet_ext_def)

lemma grows_upd_m_node_children_0 [simp]:
  "grows (c\<lparr>m_node_children_0 := v\<rparr>) c' = grows c c'"
  "grows c (c'\<lparr>m_node_children_0 := v\<rparr>) = grows c c'"
  by (simp_all add: grows_def store_ext_def packet_ext_def)

lemma grows_upd_m_node_children_1 [simp]:
  "grows (c\<lparr>m_node_children_1 := v\<rparr>) c' = grows c c'"
  "grows c (c'\<lparr>m_node_children_1 := v\<rparr>) = grows c c'"
  by (simp_all add: grows_def store_ext_def packet_ext_def)

lemma grows_upd_m_node_parent_info [simp]:
  "grows (c\<lparr>m_node_parent_info := v\<rparr>) c' = grows c c'"
  "grows c (c'\<lparr>m_node_parent_info := v\<rparr>) = grows c c'"
  by (simp_all add: grows_def store_ext_def packet_ext_def)

lemma grows_upd_m_num_events [simp]:
  "grows (c\<lparr>m_num_events := v\<rparr>) c' = grows c c'"
  "grows c (c'\<lparr>m_num_events := v\<rparr>) = grows c c'"
  by (simp_all add: grows_def store_ext_def packet_ext_def)

lemma grows_upd_m_cur_submit_node_index [simp]:
  "grows (c\<lparr>m_cur_submit_node_index := v\<rparr>) c' = grows c c'"
  "grows c (c'\<lparr>m_cur_submit_node_index := v\<rparr>) = grows c c'"
  by (simp_all add: grows_def store_ext_def packet_ext_def)

lemma grows_upd_m_cur_engine_index [simp]:
  "grows (c\<lparr>m_cur_engine_index := v\<rparr>) c' = grows c c'"
  "grows c (c'\<lparr>m_cur_engine_index := v\<rparr>) = grows c c'"
  by (simp_all add: grows_def store_ext_def packet_ext_def)

lemma grows_upd_m_ccb_ib_stack [simp]:
  "grows (c\<lparr>m_ccb_ib_stack := v\<rparr>) c' = grows c c'"
  "grows c (c'\<lparr>m_ccb_ib_stack := v\<rparr>) = grows c c'"
  by (simp_all add: grows_def store_ext_def packet_ext_def)

lemma grows_upd_m_flatten_chain_nodes [simp]:
  "grows (c\<lparr>m_flatten_chain_nodes := v\<rparr>) c' = grows c c'"
  "grows c (c'\<lparr>m_flatten_chain_nodes := v\<rparr>) = grows c c'"
  by (simp_all add: grows_def store_ext_def packet_ext_def)

lemma grows_upd_m_packets [simp]:
  "grows (c\<lparr>m_packets := v\<rparr>) c' = grows c c'"
  "grows c (c'\<lparr>m_packets := v\<rparr>) = grows c c'"
  by (simp_all add: grows_def store_ext_def packet_ext_def)

lemma grows_upd_m_cmd_begin_packet_node_indices [simp]:
  "grows (c\<lparr>m_cmd_begin_packet_node_indices := v\<rparr>) c' = grows c c'"
  "grows c (c'\<lparr>m_cmd_begin_packet_node_indices := v\<rparr>) = grows c c'"
  by (simp_all add: grows_def store_ext_def packet_ext_def)

lemma grows_upd_m_cmd_begin_event_node_indices [simp]:
  "grows (c\<lparr>m_cmd_begin_event_node_indices := v\<rparr>) c' = grows c c'"
  "grows c (c'\<lparr>m_cmd_begin_event_node_indices := v\<rparr>) = grows c c'"
  by (simp_all add: grows_def store_ext_def packet_ext_def)

lemma grows_upd_m_marker_stack [simp]:
  "grows (c\<lparr>m_marker_stack := v\<rparr>) c' = grows c c'"
  "grows c (c'\<lparr>m_marker_stack := v\<rparr>) = grows c c'"
  by (simp_all add: grows_def store_ext_def packet_ext_def)

lemma grows_upd_m_internal_marker_stack [simp]:
  "grows (c\<lparr>m_internal_marker_stack := v\<rparr>) c' = grows c c'"
  "grows c (c'\<lparr>m_internal_marker_stack := v\<rparr>) = grows c c'"
  by (simp_all add: grows_def store_ext_def packet_ext_def)

lemma grows_upd_m_cur_vulkan_cmd_id [simp]:
  "grows (c\<lparr>m_cur_vulkan_cmd_id := v\<rparr>) c' = grows c c'"
  "grows c (c'\<lparr>m_cur_vulkan_cmd_id := v\<rparr>) = grows c c'"
  by (simp_all add: grows_def store_ext_def packet_ext_def)

lemma grows_upd_m_is_secondary_cmdbuf_started [simp]:
  "grows (c\<lparr>m_is_secondary_cmdbuf_started := v\<rparr>) c' = grows c c'"
  "grows c (c'\<lparr>m_is_secondary_cmdbuf_started := v\<rparr>) = grows c c'"
  by (simp_all add: grows_def store_ext_def packet_ext_def)

lemma packet_ext_upd_m_capture_data_ptr [simp]:
  "packet_ext (c\<lparr>m_capture_data_ptr := v\<rparr>) c' = packet_ext c c'"
  "packet_ext c (c'\<lparr>m_capture_data_ptr := v\<rparr>) = packet_ext c c'"
  by (simp_all add: grows_def store_ext_def packet_ext_def)

lemma packet_ext_upd_m_node_children_0 [simp]:
  "packet_ext (c\<lparr>m_node_children_0 := v\<rparr>) c' = packet_ext c c'"
  "packet_ext c (c'\<lparr>m_node_children_0 := v\<rparr>) = packet_ext c c'"
  by (simp_all add: grows_def store_ext_def packet_ext_def)

lemma packet_ext_upd_m_node_children_1 [simp]:
  "packet_ext (c\<lparr>m_node_children_1 := v\<rparr>) c' = packet_ext c c'"
  "packet_ext c (c'\<lparr>m_node_children_1 := v\<rparr>) = packet_ext c c'"
  by (simp_all add: grows_def store_ext_def packet_ext_def)

lemma packet_ext_upd_m_node_parent_info [simp]:
  "packet_ext (c\<lparr>m_node_parent_info := v\<rparr>) c' = packet_ext c c'"
  "packet_ext c (c'\<lparr>m_node_parent_info := v\<rparr>) = packet_ext c c'"
  by (simp_all add: grows_def store_ext_def packet_ext_def)

lemma packet_ext_upd_m_num_events [simp]:
  "packet_ext (c\<lparr>m_num_events := v\<rparr>) c' = packet_ext c c'"
  "packet_ext c (c'\<lparr>m_num_events := v\<rparr>) = packet_ext c c'"
  by (simp_all add: grows_def store_ext_def packet_ext_def)

lemma packet_ext_upd_m_cur_submit_node_index [simp]:
  "packet_ext (c\<lparr>m_cur_submit_node_index := v\<rparr>) c' = packet_ext c c'"
  "packet_ext c (c'\<lparr>m_cur_submit_node_index := v\<rparr>) = packet_ext c c'"
  by (simp_all add: grows_def store_ext_def packet_ext_def)

lemma packet_ext_upd_m_cur_engine_index [simp]:
  "packet_ext (c\<lparr>m_cur_engine_index := v\<rparr>) c' = packet_ext c c'"
  "packet_ext c (c'\<lparr>m_cur_engine_index := v\<rparr>) = packet_ext c c'"
  by (simp_all add: grows_def store_ext_def packet_ext_def)

lemma packet_ext_upd_m_ccb_ib_stack [simp]:
  "packet_ext (c\<lparr>m_ccb_ib_stack := v\<rparr>) c' = packet_ext c c'"
  "packet_ext c (c'\<lparr>m_ccb_ib_stack := v\<rparr>) = packet_ext c c'"
  by (simp_all add: grows_def store_ext_def packet_ext_def)

lemma packet_ext_upd_m_flatten_chain_nodes [simp]:
  "packet_ext (c\<lparr>m_flatten_chain_nodes := v\<rparr>) c' = packet_ext c c'"
  "packet_ext c (c'\<lparr>m_flatten_chain_nodes := v\<rparr>) = packet_ext c c'"
  by (simp_all add: grows_def store_ext_def packet_ext_def)

lemma packet_ext_upd_m_packets [simp]:
  "packet_ext (c\<lparr>m_packets := v\<rparr>) c' = packet_ext c c'"
  "packet_ext c (c'\<lparr>m_packets := v\<rparr>) = packet_ext c c'"
  by (simp_all add: grows_def store_ext_def packet_ext_def)

lemma packet_ext_upd_m_cmd_begin_packet_node_indices [simp]:
  "packet_ext (c\<lparr>m_cmd_begin_packet_node_indices := v\<rparr>) c' = packet_ext c c'"
  "packet_ext c (c'\<lparr>m_cmd_begin_packet_node_indices := v\<rparr>) = packet_ext c c'"
  by (simp_all add: grows_def store_ext_def packet_ext_def)

lemma packet_ext_upd_m_cmd_begin_event_node_indices [simp]:
  "packet_ext (c\<lparr>m_cmd_begin_event_node_indices := v\<rparr>) c' = packet_ext c c'"
  "packet_ext c (c'\<lparr>m_cmd_begin_event_node_indices := v\<rparr>) = packet_ext c c'"
  by (simp_all add: grows_def store_ext_def packet_ext_def)

lemma packet_ext_upd_m_marker_stack [simp]:
  "packet_ext (c\<lparr>m_marker_stack := v\<rparr>) c' = packet_ext c c'"
  "packet_ext c (c'\<lparr>m_marker_stack := v\<rparr>) = packet_ext c c'"
  by (simp_all add: grows_def store_ext_def packet_ext_def)

lemma packet_ext_upd_m_internal_marker_stack [simp]:
  "packet_ext (c\<lparr>m_internal_marker_stack := v\<rparr>) c' = packet_ext c c'"
  "packet_ext c (c'\<lparr>m_internal_marker_stack := v\<rparr>) = packet_ext c c'"
  by (simp_all add: grows_def store_ext_def packet_ext_def)

lemma packet_ext_upd_m_cur_vulkan_cmd_id [simp]:
  "packet_ext (c\<lparr>m_cur_vulkan_cmd_id := v\<rparr>) c' = packet_ext c c'"
  "packet_ext c (c'\<lparr>m_cur_vulkan_cmd_id := v\<rparr>) = packet_ext c c'"
  by (simp_all add: grows_def store_ext_def packet_ext_def)

lemma packet_ext_upd_m_is_secondary_cmdbuf_started [simp]:
  "packet_ext (c\<lparr>m_is_secondary_cmdbuf_started := v\<rparr>) c' = packet_ext c c'"
  "packet_ext c (c'\<lparr>m_is_secondary_cmdbuf_started := v\<rparr>) = packet_ext c c'"
  by (simp_all add: grows_def store_ext_def packet_ext_def)

lemma store_ext_upd_m_capture_data_ptr [simp]:
  "store_ext (c\<lparr>m_capture_data_ptr := v\<rparr>) c' = store_ext c c'"
  "store_ext c (c'\<lparr>m_capture_data_ptr := v\<rparr>) = store_ext c c'"
  by (simp_all add: grows_def store_ext_def packet_ext_def)

lemma store_ext_upd_m_node_children_0 [simp]:
  "store_ext (c\<lparr>m_node_children_0 := v\<rparr>) c' = store_ext c c'"
  "store_ext c (c'\<lparr>m_node_children_0 := v\<rparr>) = store_ext c c'"
  by (simp_all add: grows_def store_ext_def packet_ext_def)

lemma store_ext_upd_m_node_children_1 [simp]:
  "store_ext (c\<lparr>m_node_children_1 := v\<rparr>) c' = store_ext c c'"
  "store_ext c (c'\<lparr>m_node_children_1 := v\<rparr>) = store_ext c c'"
  by (simp_all add: grows_def store_ext_def packet_ext_def)

lemma store_ext_upd_m_node_parent_info [simp]:
  "store_ext (c\<lparr>m_node_parent_info := v\<rparr>) c' = store_ext c c'"
  "store_ext c (c'\<lparr>m_node_parent_info := v\<rparr>) = store_ext c c'"
  by (simp_all add: grows_def store_ext_def packet_ext_def)

lemma store_ext_upd_m_num_events [simp]:
  "store_ext (c\<lparr>m_num_events := v\<rparr>) c' = store_ext c c'"
  "store_ext c (c'\<lparr>m_num_events := v\<rparr>) = store_ext c c'"
  by (simp_all add: grows_def store_ext_def packet_ext_def)

lemma store_ext_upd_m_cur_submit_node_index [simp]:
  "store_ext (c\<lparr>m_cur_submit_node_index := v\<rparr>) c' = store_ext c c'"
  "store_ext c (c'\<lparr>m_cur_submit_node_index := v\<rparr>) = store_ext c c'"
  by (simp_all add: grows_def store_ext_def packet_ext_def)

lemma store_ext_upd_m_cur_engine_index [simp]:
  "store_ext (c\<lparr>m_cur_engine_index := v\<rparr>) c' = store_ext c c'"
  "store_ext c (c'\<lparr>m_cur_engine_index := v\<rparr>) = store_ext c c'"
  by (simp_all add: grows_def store_ext_def packet_ext_def)

lemma store_ext_upd_m_ccb_ib_stack [simp]:
  "store_ext (c\<lparr>m_ccb_ib_stack := v\<rparr>) c' = store_ext c c'"
  "store_ext c (c'\<lparr>m_ccb_ib_stack := v\<rparr>) = store_ext c c'"
  by (simp_all add: grows_def store_ext_def packet_ext_def)

lemma store_ext_upd_m_flatten_chain_nodes [simp]:
  "store_ext (c\<lparr>m_flatten_chain_nodes := v\<rparr>) c' = store_ext c c'"
  "store_ext c (c'\<lparr>m_flatten_chain_nodes := v\<rparr>) = store_ext c c'"
  by (simp_all add: grows_def store_ext_def packet_ext_def)

lemma store_ext_upd_m_packets [simp]:
  "store_ext (c\<lparr>m_packets := v\<rparr>) c' = store_ext c c'"
  "store_ext c (c'\<lparr>m_packets := v\<rparr>) = store_ext c c'"
  by (simp_all add: grows_def store_ext_def packet_ext_def)

lemma store_ext_upd_m_cmd_begin_packet_node_indices [simp]:
  "store_ext (c\<lparr>m_cmd_begin_packet_node_indices := v\<rparr>) c' = store_ext c c'"
  "store_ext c (c'\<lparr>m_cmd_begin_packet_node_indices := v\<rparr>) = store_ext c c'"
  by (simp_all add: grows_def store_ext_def packet_ext_def)

lemma store_ext_upd_m_cmd_begin_event_node_indices [simp]:
  "store_ext (c\<lparr>m_cmd_begin_event_node_indices := v\<rparr>) c' = store_ext c c'"
  "store_ext c (c'\<lparr>m_cmd_begin_event_node_indices := v\<rparr>) = store_ext c c'"
  by (simp_all add: grows_def store_ext_def packet_ext_def)

lemma store_ext_upd_m_marker_stack [simp]:
  "store_ext (c\<lparr>m_marker_stack := v\<rparr>) c' = store_ext c c'"
  "store_ext c (c'\<lparr>m_marker_stack := v\<rparr>) = store_ext c c'"
  by (simp_all add: grows_def store_ext_def packet_ext_def)

lemma store_ext_upd_m_internal_marker_stack [simp]:
  "store_ext (c\<lparr>m_internal_marker_stack := v\<rparr>) c' = store_ext c c'"
  "store_ext c (c'\<lparr>m_internal_marker_stack := v\<rparr>) = store_ext c c'"
  by (simp_all add: grows_def store_ext_def packet_ext_def)

lemma store_ext_upd_m_has_unended_vulkan_marker [simp]:
  "store_ext (c\<lparr>m_has_unended_vulkan_marker := v\<rparr>) c' = store_ext c c'"
  "store_ext c (c'\<lparr>m_has_unended_vulkan_marker := v\<rparr>) = store_ext c c'"
  by (simp_all add: grows_def store_ext_def packet_ext_def)

lemma store_ext_upd_m_cur_vulkan_cmd_id [simp]:
  "store_ext (c\<lparr>m_cur_vulkan_cmd_id := v\<rparr>) c' = store_ext c c'"
  "store_ext c (c'\<lparr>m_cur_vulkan_cmd_id := v\<rparr>) = store_ext c c'"
  by (simp_all add: grows_def store_ext_def packet_ext_def)

lemma store_ext_upd_m_is_secondary_cmdbuf_started [simp]:
  "store_ext (c\<lparr>m_is_secondary_cmdbuf_started := v\<rparr>) c' = store_ext c c'"
  "store_ext c (c'\<lparr>m_is_secondary_cmdbuf_started := v\<rparr>) = store_ext c c'"
  by (simp_all add: grows_def store_ext_def packet_ext_def)

lemma store_ext_upd_m_dcb_ib_stack [simp]:
  "store_ext (c\<lparr>m_dcb_ib_stack := v\<rparr>) c' = store_ext c c'"
  "store_ext c (c'\<lparr>m_dcb_ib_stack := v\<rparr>) = store_ext c c'"
  by (simp_all add: grows_def store_ext_def packet_ext_def)


lemma grows_packet_ext: "grows c c' \<Longrightarrow> packet_ext c c'"
  by (simp add: packet_ext_def grows_store_ext) (simp add: grows_def)

lemma packet_ext_refl [simp]: "packet_ext c c"
  by (simp add: packet_ext_def)

lemma packet_ext_trans: "packet_ext a b \<Longrightarrow> packet_ext b c \<Longrightarrow> packet_ext a c"
  by (auto simp: packet_ext_def intro: store_ext_trans)

lemma AddNode_Append_ext:
  assumes "AddNode c type desc aux = Inr (c2, n)"
  shows "packet_ext c (AppendEventNodeIndex c2 n)"
proof -
  note A = AddNode_Inr [OF assms]
  from arg_cong [OF A(10), of m_dcb_ib_stack] have st: "m_dcb_ib_stack c2 = m_dcb_ib_stack c"
    by simp
  from arg_cong [OF A(10), of m_has_unended_vulkan_marker]
  have fl: "m_has_unended_vulkan_marker c2 = m_has_unended_vulkan_marker c"
    by simp
  have "m_event_node_indices (nodes_of (AppendEventNodeIndex c2 n)) =
        m_event_node_indices (nodes_of c) @ [n]"
    by (simp add: AppendEventNodeIndex_def set_nodes_def A(5))
  moreover have "m_node_type (nodes_of (AppendEventNodeIndex c2 n)) = m_node_type (nodes_of c) @ [type]"
    "m_aux_info (nodes_of (AppendEventNodeIndex c2 n)) = m_aux_info (nodes_of c) @ [aux]"
    "m_dcb_ib_stack (AppendEventNodeIndex c2 n) = m_dcb_ib_stack c"
    "m_topology (m_command_hierarchy (AppendEventNodeIndex c2 n)) =
       m_topology (m_command_hierarchy c)"
    "m_has_unended_vulkan_marker (AppendEventNodeIndex c2 n) = m_has_unended_vulkan_marker c"
    by (simp_all add: AppendEventNodeIndex_def set_nodes_def A(2,4,11) st fl)
  ultimately show ?thesis
    using A(1) by (simp add: packet_ext_def store_ext_def)
qed

lemma OnPacket_event_ext:
  assumes "OnPacket_event env c opcode st dd = Inr c'"
  shows "packet_ext c c'"
  using assms
  by (auto simp: OnPacket_event_def Let_def bindE_Inr_iff split: if_splits
      dest!: AddChild_grows AddSharedChildren_of_grows AddNode_Append_ext)
     (meson grows_packet_ext grows_trans packet_ext_trans)+

lemma OnPacket_ext:
  assumes "OnPacket env mem c si ib_index va type header = Inr c'"
  shows "packet_ext c c'"
  using assms
  by (auto simp: OnPacket_def Let_def bindE_Inr_iff split: if_splits
      dest!: AddPacketNode_grows AddSharedChild_in_grows AddSharedChild_each_grows
             AddSharedChild_grows OnPacket_event_ext)
     (meson grows_packet_ext grows_trans packet_ext_trans)+


section \<open>The IB stack along a callback sequence\<close>

lemma ib_stack_ok_prefix:
  assumes ok: "ib_stack_ok ns stack d"
    and pre: "prefix (m_node_type ns) (m_node_type ns')" "prefix (m_aux_info ns) (m_aux_info ns')"
  shows "ib_stack_ok ns' stack d"
proof -
  have same: "GetIbNodeType ns' y = GetIbNodeType ns y" if "y \<in> set stack" for y
  proof -
    from ok that obtain t where "GetIbNodeType ns y = Inr t"
      by (auto simp: ib_stack_ok_def)
    with GetIbNodeType_prefix [OF pre this] show ?thesis by simp
  qed
  then have "filter (\<lambda>y. GetIbNodeType ns' y \<noteq> Inr (Some kChain)) stack =
             filter (\<lambda>y. GetIbNodeType ns y \<noteq> Inr (Some kChain)) stack"
    by (intro filter_cong) simp_all
  with ok same show ?thesis
    by (simp add: ib_stack_ok_def)
qed

lemma ib_stack_ok_split:
  assumes ok: "ib_stack_ok ns stack d" and d: "0 < d"
  shows "\<exists>keep x cis t. stack = keep @ [x] @ cis \<and>
           (\<forall>y \<in> set cis. GetIbNodeType ns y = Inr (Some kChain)) \<and>
           GetIbNodeType ns x = Inr t \<and> t \<noteq> Some kChain \<and> ib_stack_ok ns keep (d - 1)"
proof -
  let ?P = "\<lambda>y. GetIbNodeType ns y \<noteq> Inr (Some kChain)"
  from ok d have "filter ?P stack \<noteq> []"
    by (auto simp: ib_stack_ok_def)
  then have "\<exists>y \<in> set stack. ?P y"
    by (simp add: filter_empty_conv)
  from split_list_last_prop [OF this] obtain keep x cis where
    st: "stack = keep @ x # cis" and x: "?P x" and cis: "\<forall>y \<in> set cis. \<not> ?P y"
    by blast
  from ok st obtain t where t: "GetIbNodeType ns x = Inr t"
    by (auto simp: ib_stack_ok_def)
  with x have nt: "t \<noteq> Some kChain" by auto
  from cis have f0: "filter ?P cis = []"
    by (simp add: filter_empty_conv)
  from ok st x f0 have "length (filter ?P keep) = d - 1"
    by (auto simp: ib_stack_ok_def)
  with ok st have "ib_stack_ok ns keep (d - 1)"
    by (simp add: ib_stack_ok_def)
  with st t nt cis show ?thesis
    by auto
qed

lemma OnIbStart_ib_stack_ok:
  assumes r: "OnIbStart env c si ib_index ib_info type = Inr c'"
    and ok: "ib_stack_ok (nodes_of c) (m_dcb_ib_stack c) d"
  shows "ib_stack_ok (nodes_of c') (m_dcb_ib_stack c') (if type = kChain then d else d + 1)"
proof -
  note R = OnIbStart_Inr [OF r]
  from R(3) obtain aux where aux: "m_aux_info (nodes_of c') = m_aux_info (nodes_of c) @ [aux]"
    by blast
  have "ib_stack_ok (nodes_of c') (m_dcb_ib_stack c) d"
    by (rule ib_stack_ok_prefix [OF ok]) (simp_all add: R(2) aux)
  with R(5) show ?thesis
    by (auto simp: ib_stack_ok_def R(1))
qed

lemma OnIbEnd_ib_stack_ok:
  assumes r: "OnIbEnd env c si ib_index ib_info = Inr c'"
    and ok: "ib_stack_ok (nodes_of c) (m_dcb_ib_stack c) d" and d: "0 < d"
  shows "ib_stack_ok (nodes_of c') (m_dcb_ib_stack c') (d - 1)"
proof -
  note R = OnIbEnd_Inr [OF r]
  from ib_stack_ok_split [OF ok d] obtain keep x cis t where
    st: "m_dcb_ib_stack c = keep @ [x] @ cis"
    and cis: "\<forall>y \<in> set cis. GetIbNodeType (nodes_of c) y = Inr (Some kChain)"
    and x: "GetIbNodeType (nodes_of c) x = Inr t" "t \<noteq> Some kChain"
    and k: "ib_stack_ok (nodes_of c) keep (d - 1)"
    by blast
  from OnIbEnd_pop_run [OF st cis x] R(1) have "m_dcb_ib_stack c' = keep"
    by simp
  with k R(2) show ?thesis
    by simp
qed

lemma OnPacket_ib_stack_ok:
  assumes r: "OnPacket env mem c si ib_index va type header = Inr c'"
    and ok: "ib_stack_ok (nodes_of c) (m_dcb_ib_stack c) d"
  shows "ib_stack_ok (nodes_of c') (m_dcb_ib_stack c') d"
proof -
  from OnPacket_ext [OF r] have p: "prefix (m_node_type (nodes_of c)) (m_node_type (nodes_of c'))"
    "prefix (m_aux_info (nodes_of c)) (m_aux_info (nodes_of c'))"
    "m_dcb_ib_stack c' = m_dcb_ib_stack c"
    by (simp_all add: packet_ext_def store_ext_def)
  from ib_stack_ok_prefix [OF ok p(1,2)] p(3) show ?thesis
    by simp
qed

lemma run_callbacks_ib_stack_ok:
  "run_callbacks env mem si c cbs = Inr c' \<Longrightarrow>
   ib_stack_ok (nodes_of c) (m_dcb_ib_stack c) d \<Longrightarrow> depth_after d cbs = Some d' \<Longrightarrow>
   ib_stack_ok (nodes_of c') (m_dcb_ib_stack c') d'"
proof (induction cbs arbitrary: c d)
  case Nil
  then show ?case by simp
next
  case (Cons cb rest)
  from Cons.prems(1) obtain c1 where d1: "deliver env mem si c cb = Inr c1"
    and r1: "run_callbacks env mem si c1 rest = Inr c'"
    by (auto split: sum.splits)
  show ?case
  proof (cases cb)
    case (IbStart i info type)
    with d1 have "OnIbStart env c si i info type = Inr c1" by simp
    from OnIbStart_ib_stack_ok [OF this Cons.prems(2)] Cons.prems(3) IbStart
    show ?thesis
      by (intro Cons.IH [OF r1]) auto
  next
    case (Packet i va type header)
    with d1 have "OnPacket env mem c si i va type header = Inr c1" by simp
    from OnPacket_ib_stack_ok [OF this Cons.prems(2)] Cons.prems(3) Packet
    show ?thesis
      by (intro Cons.IH [OF r1]) auto
  next
    case (IbEnd i info)
    with Cons.prems(3) have d: "0 < d" and rest: "depth_after (d - 1) rest = Some d'"
      by (auto split: if_splits)
    from IbEnd d1 have "OnIbEnd env c si i info = Inr c1" by simp
    from OnIbEnd_ib_stack_ok [OF this Cons.prems(2) d] rest
    show ?thesis
      by (intro Cons.IH [OF r1])
  qed
qed

lemma depth_after_append:
  "depth_after d (xs @ ys) =
     (case depth_after d xs of None \<Rightarrow> None | Some d' \<Rightarrow> depth_after d' ys)"
proof (induction d xs rule: depth_after.induct)
qed simp_all

lemma OnIbStart_frame:
  assumes "OnIbStart env c si ib_index ib_info type = Inr c'"
  shows "m_topology (m_command_hierarchy c') = m_topology (m_command_hierarchy c)"
    and "m_has_unended_vulkan_marker c' = m_has_unended_vulkan_marker c"
proof -
  from assms obtain aux c1 n p c2 c3 where
    a: "AddNode c kIbNode (ib_description ib_index ib_info type) aux = Inr (c1, n)"
    and b: "AddChild c1 kEngineTopology p n = Inr c2"
    and d: "AddChild c2 kSubmitTopology p n = Inr c3"
    and e: "c' = c3\<lparr>m_dcb_ib_stack := m_dcb_ib_stack c3 @ [n],
              m_cmd_begin_packet_node_indices := [],
              m_cmd_begin_event_node_indices := []\<rparr>"
    by (cases ib_info) (auto simp: OnIbStart_def Let_def bindE_Inr_iff)
  from grows_trans [OF AddNode_grows [OF a] grows_trans [OF AddChild_grows [OF b]
    AddChild_grows [OF d]]]
  show "m_topology (m_command_hierarchy c') = m_topology (m_command_hierarchy c)"
    and "m_has_unended_vulkan_marker c' = m_has_unended_vulkan_marker c"
    by (simp_all add: grows_def e)
qed

lemma OnIbEnd_returns:
  assumes pop: "OnIbEnd_pop (nodes_of c) (m_dcb_ib_stack c) = Inr keep"
    and nm: "\<not> m_has_unended_vulkan_marker c"
  shows "\<exists>c'. OnIbEnd env c si ib_index ib_info = Inr c' \<and> m_dcb_ib_stack c' = keep \<and>
              \<not> m_has_unended_vulkan_marker c'"
  using assms by (simp add: OnIbEnd_def OnVulkanMarkerEnd_def)

lemma OnIbEnd_no_marker:
  assumes "OnIbEnd env c si ib_index ib_info = Inr c'" and "\<not> m_has_unended_vulkan_marker c"
  shows "\<not> m_has_unended_vulkan_marker c'"
proof -
  from assms(1) obtain stack c1 where
    v: "OnVulkanMarkerEnd env (c\<lparr>m_dcb_ib_stack := stack\<rparr>) = Inr c1"
    and c': "c' = c1\<lparr>m_cmd_begin_packet_node_indices := [], m_cmd_begin_event_node_indices := []\<rparr>"
    by (auto simp: OnIbEnd_def bindE_Inr_iff)
  from v have "\<not> m_has_unended_vulkan_marker c1"
    by (auto simp: OnVulkanMarkerEnd_def bindE_Inr_iff split: if_splits)
  then show ?thesis
    by (simp add: c')
qed

lemma run_callbacks_no_marker:
  "run_callbacks env mem si c cbs = Inr c' \<Longrightarrow> \<not> m_has_unended_vulkan_marker c \<Longrightarrow>
   \<not> m_has_unended_vulkan_marker c'"
proof (induction cbs arbitrary: c)
  case Nil
  then show ?case by simp
next
  case (Cons cb rest)
  from Cons.prems(1) obtain c1 where d1: "deliver env mem si c cb = Inr c1"
    and r1: "run_callbacks env mem si c1 rest = Inr c'"
    by (auto split: sum.splits)
  have "\<not> m_has_unended_vulkan_marker c1"
  proof (cases cb)
    case (IbStart i info type)
    with d1 have "OnIbStart env c si i info type = Inr c1" by simp
    from OnIbStart_frame(2) [OF this] Cons.prems(2) show ?thesis by simp
  next
    case (Packet i va type header)
    with d1 have "OnPacket env mem c si i va type header = Inr c1" by simp
    from OnPacket_ext [OF this] Cons.prems(2) show ?thesis
      by (simp add: packet_ext_def)
  next
    case (IbEnd i info)
    with d1 have "OnIbEnd env c si i info = Inr c1" by simp
    from OnIbEnd_no_marker [OF this Cons.prems(2)] show ?thesis .
  qed
  from Cons.IH [OF r1 this] show ?case .
qed

text \<open>
  Claim C1. Take a callback sequence that starts on an empty IB stack, with no unended Vulkan
  marker pending, and in which every \<^verbatim>\<open>on_ib_end\<close> is preceded by an unanswered
  \<^verbatim>\<open>on_ib_start\<close> of a non-Chain IB, and let the builder have processed it up to an
  \<^verbatim>\<open>on_ib_end\<close>. Then the IB stack is \<open>keep @ [x] @ cis\<close> with \<open>x\<close> not of type Chain and
  all of \<open>cis\<close> of type Chain; the stack operations of \<^verbatim>\<open>OnIbEnd\<close> all succeed, so none of
  them reads or pops an empty stack; and \<^verbatim>\<open>OnIbEnd\<close> returns with the stack \<open>keep\<close>: the run
  of Chain entries and exactly one more entry are popped.
\<close>

theorem OnIbEnd_pops_chain_run:
  assumes empty: "m_dcb_ib_stack c0 = []"
    and no_marker: "\<not> m_has_unended_vulkan_marker c0"
    and run: "run_callbacks env mem si c0 pre = Inr c"
    and matched: "depth_after 0 (pre @ [IbEnd ib_index ib_info]) \<noteq> None"
  shows "\<exists>keep x cis t.
           m_dcb_ib_stack c = keep @ [x] @ cis \<and>
           (\<forall>y \<in> set cis. GetIbNodeType (nodes_of c) y = Inr (Some kChain)) \<and>
           GetIbNodeType (nodes_of c) x = Inr t \<and> t \<noteq> Some kChain \<and>
           OnIbEnd_pop (nodes_of c) (m_dcb_ib_stack c) = Inr keep \<and>
           (\<exists>c'. OnIbEnd env c si ib_index ib_info = Inr c' \<and> m_dcb_ib_stack c' = keep)"
proof -
  from matched obtain d where d: "depth_after 0 pre = Some d" "0 < d"
    by (auto simp: depth_after_append split: option.splits if_splits)
  have "ib_stack_ok (nodes_of c0) (m_dcb_ib_stack c0) 0"
    by (simp add: ib_stack_ok_def empty)
  from run_callbacks_ib_stack_ok [OF run this d(1)]
  have ok: "ib_stack_ok (nodes_of c) (m_dcb_ib_stack c) d" .
  from ib_stack_ok_split [OF ok d(2)] obtain keep x cis t where
    st: "m_dcb_ib_stack c = keep @ [x] @ cis"
    and cis: "\<forall>y \<in> set cis. GetIbNodeType (nodes_of c) y = Inr (Some kChain)"
    and x: "GetIbNodeType (nodes_of c) x = Inr t" "t \<noteq> Some kChain"
    by blast
  have pop: "OnIbEnd_pop (nodes_of c) (m_dcb_ib_stack c) = Inr keep"
    by (rule OnIbEnd_pop_run [OF st cis x])
  have nm: "\<not> m_has_unended_vulkan_marker c"
    by (rule run_callbacks_no_marker [OF run no_marker])
  from OnIbEnd_returns [OF pop nm]
  have "\<exists>c'. OnIbEnd env c si ib_index ib_info = Inr c' \<and> m_dcb_ib_stack c' = keep"
    by blast
  with st cis x pop show ?thesis
    by blast
qed

lemma example_callbacks_run:
  "\<exists>c. run_callbacks example_env example_mem 0 example_submit_state example_callbacks = Inr c"
  by (simp add: example_callbacks_def example_ib_def OnIbStart_def example_env_def
      example_submit_state_def IbNode_Inr AddNode_def Nodes_AddNode_def set_nodes_def
      all_topologies_def AddChild_def Let_def)

theorem OnIbEnd_pops_chain_run_witness:
  "m_dcb_ib_stack example_submit_state = [] \<and>
   \<not> m_has_unended_vulkan_marker example_submit_state \<and>
   depth_after 0 (example_callbacks @ [IbEnd 0 example_ib]) \<noteq> None \<and>
   (\<exists>c. run_callbacks example_env example_mem 0 example_submit_state example_callbacks = Inr c \<and>
      (\<exists>keep x cis t.
           m_dcb_ib_stack c = keep @ [x] @ cis \<and>
           (\<forall>y \<in> set cis. GetIbNodeType (nodes_of c) y = Inr (Some kChain)) \<and>
           GetIbNodeType (nodes_of c) x = Inr t \<and> t \<noteq> Some kChain \<and>
           OnIbEnd_pop (nodes_of c) (m_dcb_ib_stack c) = Inr keep \<and>
           (\<exists>c'. OnIbEnd example_env c 0 0 example_ib = Inr c' \<and> m_dcb_ib_stack c' = keep)))"
proof -
  have e: "m_dcb_ib_stack example_submit_state = []"
    and n: "\<not> m_has_unended_vulkan_marker example_submit_state"
    by (simp_all add: example_submit_state_def)
  have m: "depth_after 0 (example_callbacks @ [IbEnd 0 example_ib]) \<noteq> None"
    by (simp add: example_callbacks_def)
  obtain c where
    r: "run_callbacks example_env example_mem 0 example_submit_state example_callbacks = Inr c"
    using example_callbacks_run by blast
  from OnIbEnd_pops_chain_run [OF e n r m] e n m r show ?thesis
    by blast
qed

lemma example_chain_state_wf: "creator_wf example_chain_state"
  by (simp add: creator_wf_def example_chain_state_def all_topologies_def)

theorem OnIbStart_flatten_chain_parent_witness:
  "creator_wf example_chain_state \<and> kMaxNumIbsBits example_env \<le> 8 \<and>
   unat (2 :: 32 word) < 2 ^ kMaxNumIbsBits example_env \<and>
   m_flatten_chain_nodes example_chain_state \<and>
   m_dcb_ib_stack example_chain_state = [] @ [2] @ [3] \<and>
   GetIbNodeType (nodes_of example_chain_state) 3 = Inr (Some kChain) \<and>
   GetIbNodeType (nodes_of example_chain_state) 2 = Inr (Some kNormal) \<and>
   (\<exists>c'. OnIbStart example_env example_chain_state 0 2 example_ib kChain = Inr c' \<and>
      m_node_type (nodes_of c') = [kRootNode, kSubmitNode, kIbNode, kIbNode, kIbNode] \<and>
      GetIbNodeType (nodes_of c') 4 = Inr (Some kChain) \<and>
      m_node_children_0 c' kEngineTopology = [[1], [2], [3, 4], [], []] \<and>
      m_node_children_0 c' kSubmitTopology = [[1], [2], [3, 4], [], []])"
proof -
  have b: "kMaxNumIbsBits example_env \<le> 8" "unat (2 :: 32 word) < 2 ^ kMaxNumIbsBits example_env"
    by (simp_all add: example_env_def)
  have f: "m_flatten_chain_nodes example_chain_state"
    and s: "m_dcb_ib_stack example_chain_state = [] @ [2] @ [3]"
    by (simp_all add: example_chain_state_def)
  have t3: "GetIbNodeType (nodes_of example_chain_state) 3 = Inr (Some kChain)"
    and t2: "GetIbNodeType (nodes_of example_chain_state) 2 = Inr (Some kNormal)"
    by (simp_all add: example_chain_state_def GetIbNodeType_def ib_node_of_def IbType_of_u8_def)
  have cis: "\<forall>y \<in> set [3]. GetIbNodeType (nodes_of example_chain_state) y = Inr (Some kChain)"
    using t3 by simp
  from OnIbStart_flatten_chain_parent [OF example_chain_state_wf b f s cis t2, of 0 example_ib]
  obtain c' where "OnIbStart example_env example_chain_state 0 2 example_ib kChain = Inr c'"
    "m_node_type (nodes_of c') = m_node_type (nodes_of example_chain_state) @ [kIbNode]"
    "GetIbNodeType (nodes_of c') (length (m_node_type (nodes_of example_chain_state))) =
       Inr (Some kChain)"
    "m_node_children_0 c' kEngineTopology =
             (m_node_children_0 example_chain_state kEngineTopology)
               [2 := m_node_children_0 example_chain_state kEngineTopology ! 2 @
                     [length (m_node_type (nodes_of example_chain_state))]] @ [[]]"
    "m_node_children_0 c' kSubmitTopology =
             (m_node_children_0 example_chain_state kSubmitTopology)
               [2 := m_node_children_0 example_chain_state kSubmitTopology ! 2 @
                     [length (m_node_type (nodes_of example_chain_state))]] @ [[]]"
    by auto
  then have "OnIbStart example_env example_chain_state 0 2 example_ib kChain = Inr c' \<and>
      m_node_type (nodes_of c') = [kRootNode, kSubmitNode, kIbNode, kIbNode, kIbNode] \<and>
      GetIbNodeType (nodes_of c') 4 = Inr (Some kChain) \<and>
      m_node_children_0 c' kEngineTopology = [[1], [2], [3, 4], [], []] \<and>
      m_node_children_0 c' kSubmitTopology = [[1], [2], [3, 4], [], []]"
    by (simp add: example_chain_state_def eval_nat_numeral)
  with example_chain_state_wf b f s t3 t2 show ?thesis
    by blast
qed

section \<open>The event index list of a build\<close>

lemma store_ext_same_nodes: "m_command_hierarchy c' = m_command_hierarchy c \<Longrightarrow> store_ext c c'"
  by (simp add: store_ext_def)

lemma packet_ext_store_ext: "packet_ext c c' \<Longrightarrow> store_ext c c'"
  by (simp add: packet_ext_def)

lemma OnIbStart_store_ext:
  assumes "OnIbStart env c si ib_index ib_info type = Inr c'"
  shows "store_ext c c'"
proof -
  note R = OnIbStart_Inr [OF assms]
  from R(3) obtain aux where "m_aux_info (nodes_of c') = m_aux_info (nodes_of c) @ [aux]"
    by blast
  with R(2,4) OnIbStart_frame(1) [OF assms] show ?thesis
    by (simp add: store_ext_def)
qed

lemma OnIbEnd_store_ext:
  assumes "OnIbEnd env c si ib_index ib_info = Inr c'"
  shows "store_ext c c'"
  using OnIbEnd_Inr(2) [OF assms] by (simp add: store_ext_same_nodes)

lemma run_callbacks_store_ext:
  "run_callbacks env mem si c cbs = Inr c' \<Longrightarrow> store_ext c c'"
proof (induction cbs arbitrary: c)
  case Nil
  then show ?case by simp
next
  case (Cons cb rest)
  from Cons.prems obtain c1 where d1: "deliver env mem si c cb = Inr c1"
    and r1: "run_callbacks env mem si c1 rest = Inr c'"
    by (auto split: sum.splits)
  have "store_ext c c1"
    using d1
    by (cases cb)
       (auto intro: OnIbStart_store_ext OnIbEnd_store_ext packet_ext_store_ext OnPacket_ext)
  with Cons.IH [OF r1] show ?case
    by (rule store_ext_trans [rotated])
qed

lemma OnSubmitStart_grows:
  assumes "OnSubmitStart env c si info = Inr c'"
  shows "grows c c'"
  using assms
  by (auto simp: OnSubmitStart_def bindE_Inr_iff
      dest!: AddNode_grows AddChild_grows AddChild_in_grows)
     (meson grows_trans)+

lemma present_loop_grows:
  "present_loop env si presents c idxs = Inr c' \<Longrightarrow> grows c c'"
proof (induction idxs arbitrary: c)
  case Nil
  then show ?case by simp
next
  case (Cons i rest)
  show ?case
  proof (cases "si \<noteq> GetSubmitIndex (presents ! i)")
    case True
    with Cons.prems have "present_loop env si presents c rest = Inr c'"
      by (simp split: if_splits)
    then show ?thesis by (rule Cons.IH)
  next
    case False
    with Cons.prems obtain desc c1 n c2 where
      "AddNode c kPresentNode desc (AuxRaw 0) = Inr (c1, n)"
      "AddChild_in c1 [kAllEventTopology, kRgpTopology] kRootNodeIndex n = Inr c2"
      "present_loop env si presents c2 rest = Inr c'"
      by (auto split: if_splits sum.splits)
    then show ?thesis
      by (meson AddNode_grows AddChild_in_grows Cons.IH grows_trans)
  qed
qed

lemma add_postamble_state_grows:
  assumes "add_postamble_state c = Inr c'"
  shows "grows c c'"
  using assms
  by (auto simp: add_postamble_state_def bindE_Inr_iff
      dest!: AddNode_grows AddChild_grows AddSharedChildren_of_grows)
     (meson grows_trans)+

lemma OnSubmitEnd_store_ext:
  assumes "OnSubmitEnd env c si info = Inr c'"
  shows "store_ext c c'"
  using assms
  by (auto simp: OnSubmitEnd_def Let_def bindE_Inr_iff split: if_splits option.splits
      dest!: add_postamble_state_grows present_loop_grows)
     (meson grows_trans grows_store_ext)+

lemma engine_loop_grows: "engine_loop env c idxs = Inr c' \<Longrightarrow> grows c c'"
proof (induction idxs arbitrary: c)
  case Nil
  then show ?case by simp
next
  case (Cons i rest)
  then obtain c1 n c2 where
    "AddNode c kEngineNode (kEngineTypeStrings env i) (AuxRaw 0) = Inr (c1, n)"
    "AddChild c1 kEngineTopology kRootNodeIndex n = Inr c2"
    "engine_loop env c2 rest = Inr c'"
    by (auto split: sum.splits)
  then show ?case
    by (meson AddNode_grows AddChild_grows Cons.IH grows_trans)
qed

lemma submit_loop_store_ext:
  "submit_loop env capture_data c idxs = Inr (c', ok) \<Longrightarrow> store_ext c c'"
proof (induction idxs arbitrary: c)
  case Nil
  then show ?case by simp
next
  case (Cons i rest)
  define info where "info = GetSubmitInfo capture_data ! i"
  from Cons.prems obtain c1 where s: "OnSubmitStart env c (of_nat i) info = Inr c1"
    by (auto simp: info_def Let_def split: if_splits sum.splits)
  note g1 = grows_store_ext [OF OnSubmitStart_grows [OF s]]
  show ?case
  proof (cases "IsDummySubmit info \<or>
                (GetEngineType info \<noteq> kUniversal \<and> GetEngineType info \<noteq> kCompute \<and>
                 GetEngineType info \<noteq> kDma)")
    case True
    with Cons.prems s obtain c2 where "OnSubmitEnd env c1 (of_nat i) info = Inr c2"
      "submit_loop env capture_data c2 rest = Inr (c', ok)"
      by (auto simp: info_def Let_def split: if_splits sum.splits)
    with g1 show ?thesis
      by (meson OnSubmitEnd_store_ext Cons.IH store_ext_trans)
  next
    case False
    obtain cbs emu_ok where e: "ExecuteSubmit env (GetMemoryManager capture_data) (of_nat i)
        (GetIndirectBufferInfo info) = (cbs, emu_ok)"
      by (cases "ExecuteSubmit env (GetMemoryManager capture_data) (of_nat i)
        (GetIndirectBufferInfo info)")
    with False Cons.prems s obtain c2 where
      r: "run_callbacks env (GetMemoryManager capture_data) (of_nat i) c1 cbs = Inr c2"
      by (auto simp: info_def Let_def split: if_splits sum.splits)
    note g2 = store_ext_trans [OF g1 run_callbacks_store_ext [OF r]]
    show ?thesis
    proof (cases emu_ok)
      case False
      with \<open>\<not> (IsDummySubmit info \<or> _)\<close> Cons.prems s e r have "c' = c2"
        by (auto simp: info_def Let_def split: if_splits sum.splits)
      with g2 show ?thesis by simp
    next
      case True
      with \<open>\<not> (IsDummySubmit info \<or> _)\<close> Cons.prems s e r obtain c3 where
        "OnSubmitEnd env c2 (of_nat i) info = Inr c3"
        "submit_loop env capture_data c3 rest = Inr (c', ok)"
        by (auto simp: info_def Let_def split: if_splits sum.splits)
      with g2 show ?thesis
        by (meson OnSubmitEnd_store_ext Cons.IH store_ext_trans)
    qed
  qed
qed

section \<open>The post-pass\<close>

lemma vulkan_call_children_Inr:
  "vulkan_call_children c node chs = Inr c' \<Longrightarrow>
   c' = c\<lparr>m_node_children_0 := (m_node_children_0 c)
           (kVulkanCallTopology := (m_node_children_0 c kVulkanCallTopology)
              [node := m_node_children_0 c kVulkanCallTopology ! node @
                       filter (\<lambda>ch. FilterOut (nodes_of c) ch = Inr False) chs])\<rparr>"
proof (induction chs arbitrary: c)
  case Nil
  then show ?case by simp
next
  case (Cons ch rest)
  from Cons.prems obtain filtered where f: "FilterOut (nodes_of c) ch = Inr filtered"
    by (auto split: sum.splits)
  show ?case
  proof (cases filtered)
    case True
    with Cons.prems f have "vulkan_call_children c node rest = Inr c'"
      by simp
    from Cons.IH [OF this] f True show ?thesis
      by simp
  next
    case False
    with Cons.prems f obtain c1 where a: "AddChild c kVulkanCallTopology node ch = Inr c1"
      and r: "vulkan_call_children c1 node rest = Inr c'"
      by (auto split: sum.splits)
    note A = AddChild_Inr [OF a]
    have n1: "nodes_of c1 = nodes_of c"
      using arg_cong [OF A(2), of m_command_hierarchy] by simp
    show ?thesis
      using A(1) unfolding Cons.IH [OF r]
      by (simp add: A(2) f False fun_upd_def cong: if_cong)
  qed
qed


lemma vulkan_call_loop_all:
  "vulkan_call_loop c idxs = Inr c' \<Longrightarrow> distinct idxs \<Longrightarrow>
   m_command_hierarchy c' = m_command_hierarchy c \<and>
   (\<forall>t. t \<noteq> kVulkanCallTopology \<longrightarrow>
        m_node_children_0 c' t = m_node_children_0 c t \<and>
        m_node_children_1 c' t = m_node_children_1 c t) \<and>
   length (m_node_children_0 c' kVulkanCallTopology) =
     length (m_node_children_0 c kVulkanCallTopology) \<and>
   length (m_node_children_1 c' kVulkanCallTopology) =
     length (m_node_children_1 c kVulkanCallTopology) \<and>
   (\<forall>i. i \<notin> set idxs \<longrightarrow>
        m_node_children_0 c' kVulkanCallTopology ! i =
          m_node_children_0 c kVulkanCallTopology ! i \<and>
        m_node_children_1 c' kVulkanCallTopology ! i =
          m_node_children_1 c kVulkanCallTopology ! i) \<and>
   (\<forall>i \<in> set idxs. \<exists>filtered. FilterOut (nodes_of c) i = Inr filtered \<and>
        i < length (m_node_children_0 c kVulkanCallTopology) \<and>
        i < length (m_node_children_1 c kVulkanCallTopology) \<and>
        m_node_children_0 c' kVulkanCallTopology ! i =
          (if filtered then []
           else filter (\<lambda>ch. FilterOut (nodes_of c) ch = Inr False)
                  (m_node_children_0 c kAllEventTopology ! i)) \<and>
        m_node_children_1 c' kVulkanCallTopology ! i =
          (if filtered then [] else m_node_children_1 c kAllEventTopology ! i))"
proof (induction idxs arbitrary: c)
  case Nil
  then show ?case by simp
next
  case (Cons n rest)
  from Cons.prems(1) have n0: "n < length (m_node_children_0 c kVulkanCallTopology)"
    and e0: "m_node_children_0 c kVulkanCallTopology ! n = []"
    and n1: "n < length (m_node_children_1 c kVulkanCallTopology)"
    and e1: "m_node_children_1 c kVulkanCallTopology ! n = []"
    by (auto split: if_splits)
  from Cons.prems(1) n0 e0 n1 e1 obtain filtered where
    f: "FilterOut (nodes_of c) n = Inr filtered"
    by (auto split: sum.splits)
  from Cons.prems(2) have d: "distinct rest" and nn: "n \<notin> set rest"
    by simp_all
  show ?case
  proof (cases filtered)
    case True
    with Cons.prems(1) n0 e0 n1 e1 f have r: "vulkan_call_loop c rest = Inr c'"
      by simp
    from Cons.IH [OF r d] nn n0 n1 e0 e1 f True show ?thesis
      by auto
  next
    case False
    with Cons.prems(1) n0 e0 n1 e1 f obtain c1 where
      vc: "vulkan_call_children c n (m_node_children_0 c kAllEventTopology ! n) = Inr c1"
      and r: "vulkan_call_loop
                (c1\<lparr>m_node_children_1 := (m_node_children_1 c1)
                      (kVulkanCallTopology := (m_node_children_1 c1 kVulkanCallTopology)
                         [n := m_node_children_1 c1 kAllEventTopology ! n])\<rparr>)
                rest = Inr c'"
      by (auto split: sum.splits)
    define kept where "kept = filter (\<lambda>ch. FilterOut (nodes_of c) ch = Inr False)
        (m_node_children_0 c kAllEventTopology ! n)"
    define c2 where "c2 = c1\<lparr>m_node_children_1 := (m_node_children_1 c1)
                      (kVulkanCallTopology := (m_node_children_1 c1 kVulkanCallTopology)
                         [n := m_node_children_1 c1 kAllEventTopology ! n])\<rparr>"
    from r have r: "vulkan_call_loop c2 rest = Inr c'"
      by (simp add: c2_def)
    have c1: "c1 = c\<lparr>m_node_children_0 := (m_node_children_0 c)
           (kVulkanCallTopology := (m_node_children_0 c kVulkanCallTopology)
              [n := kept])\<rparr>"
      using vulkan_call_children_Inr [OF vc] e0 by (simp add: kept_def)
    have h2: "m_command_hierarchy c2 = m_command_hierarchy c"
      by (simp add: c2_def c1)
    have o2: "m_node_children_0 c2 t = m_node_children_0 c t"
      "m_node_children_1 c2 t = m_node_children_1 c t" if "t \<noteq> kVulkanCallTopology" for t
      using that by (simp_all add: c2_def c1)
    have v0: "m_node_children_0 c2 kVulkanCallTopology =
        (m_node_children_0 c kVulkanCallTopology)[n := kept]"
      and v1: "m_node_children_1 c2 kVulkanCallTopology =
        (m_node_children_1 c kVulkanCallTopology)[n := m_node_children_1 c kAllEventTopology ! n]"
      by (simp_all add: c2_def c1)
    note IH = Cons.IH [OF r d]
    have A: "m_command_hierarchy c' = m_command_hierarchy c"
      using IH h2 by simp
    have B: "\<forall>t. t \<noteq> kVulkanCallTopology \<longrightarrow>
        m_node_children_0 c' t = m_node_children_0 c t \<and>
        m_node_children_1 c' t = m_node_children_1 c t"
      using IH o2 by simp
    have C: "length (m_node_children_0 c' kVulkanCallTopology) =
       length (m_node_children_0 c kVulkanCallTopology)"
       "length (m_node_children_1 c' kVulkanCallTopology) =
       length (m_node_children_1 c kVulkanCallTopology)"
      using IH v0 v1 by simp_all
    have D: "\<forall>i. i \<notin> set (n # rest) \<longrightarrow>
        m_node_children_0 c' kVulkanCallTopology ! i =
          m_node_children_0 c kVulkanCallTopology ! i \<and>
        m_node_children_1 c' kVulkanCallTopology ! i =
          m_node_children_1 c kVulkanCallTopology ! i"
      using IH v0 v1 by simp
    have En: "m_node_children_0 c' kVulkanCallTopology ! n = kept"
      "m_node_children_1 c' kVulkanCallTopology ! n = m_node_children_1 c kAllEventTopology ! n"
      using IH nn v0 v1 n0 n1 by simp_all
    have Er: "\<exists>filtered. FilterOut (nodes_of c) i = Inr filtered \<and>
        i < length (m_node_children_0 c kVulkanCallTopology) \<and>
        i < length (m_node_children_1 c kVulkanCallTopology) \<and>
        m_node_children_0 c' kVulkanCallTopology ! i =
          (if filtered then []
           else filter (\<lambda>ch. FilterOut (nodes_of c) ch = Inr False)
                  (m_node_children_0 c kAllEventTopology ! i)) \<and>
        m_node_children_1 c' kVulkanCallTopology ! i =
          (if filtered then [] else m_node_children_1 c kAllEventTopology ! i)"
      if "i \<in> set rest" for i
    proof -
      from IH that obtain fi where "FilterOut (nodes_of c2) i = Inr fi"
        "i < length (m_node_children_0 c2 kVulkanCallTopology)"
        "i < length (m_node_children_1 c2 kVulkanCallTopology)"
        "m_node_children_0 c' kVulkanCallTopology ! i =
          (if fi then []
           else filter (\<lambda>ch. FilterOut (nodes_of c2) ch = Inr False)
                  (m_node_children_0 c2 kAllEventTopology ! i))"
        "m_node_children_1 c' kVulkanCallTopology ! i =
          (if fi then [] else m_node_children_1 c2 kAllEventTopology ! i)"
        by blast
      then show ?thesis
        unfolding h2 o2 [of kAllEventTopology, simplified] v0 v1 by simp
    qed
    from A B C D En Er f False n0 n1 show ?thesis
      by (auto simp: kept_def)
  qed
qed


lemma vulkan_event_children_frame:
  "vulkan_event_children env c node chs acc_shared = Inr c' \<Longrightarrow>
   m_command_hierarchy c' = m_command_hierarchy c \<and>
   (\<forall>t. t \<noteq> kVulkanEventTopology \<longrightarrow>
        m_node_children_0 c' t = m_node_children_0 c t \<and>
        m_node_children_1 c' t = m_node_children_1 c t)"
proof (induction chs arbitrary: c acc_shared)
  case Nil
  then show ?case by simp
next
  case (Cons ch rest)
  from Cons.prems obtain non_event where
    ne: "IsVulkanNonEventNode env (nodes_of c) ch = Inr non_event"
    and l: "ch < length (m_node_children_1 c kVulkanCallTopology)"
    by (auto simp: Let_def split: if_splits sum.splits)
  show ?case
  proof (cases non_event)
    case True
    with Cons.prems ne l obtain acc1 where
      "vulkan_event_children env c node rest acc1 = Inr c'"
      by (auto simp: Let_def)
    from Cons.IH [OF this] show ?thesis .
  next
    case False
    with Cons.prems ne l obtain c1 v where
      a: "AddChild c kVulkanEventTopology node ch = Inr c1"
      and r: "vulkan_event_children env
               (c1\<lparr>m_node_children_1 := (m_node_children_1 c1)
                     (kVulkanEventTopology := (m_node_children_1 c1 kVulkanEventTopology)
                        [ch := v])\<rparr>) node rest [] = Inr c'"
      by (auto simp: Let_def split: sum.splits if_splits)
    note A = AddChild_Inr(2) [OF a]
    from Cons.IH [OF r] show ?thesis
      by (simp add: A)
  qed
qed

lemma vulkan_event_loop_frame:
  "vulkan_event_loop env c idxs = Inr c' \<Longrightarrow>
   m_command_hierarchy c' = m_command_hierarchy c \<and>
   (\<forall>t. t \<noteq> kVulkanEventTopology \<longrightarrow>
        m_node_children_0 c' t = m_node_children_0 c t \<and>
        m_node_children_1 c' t = m_node_children_1 c t)"
proof (induction idxs arbitrary: c)
  case Nil
  then show ?case by simp
next
  case (Cons n rest)
  from Cons.prems obtain non_event where
    ne: "IsVulkanNonEventNode env (nodes_of c) n = Inr non_event"
    by (auto split: sum.splits)
  show ?case
  proof (cases non_event)
    case True
    with Cons.prems ne have "vulkan_event_loop env c rest = Inr c'"
      by simp
    from Cons.IH [OF this] show ?thesis .
  next
    case False
    with Cons.prems ne obtain c1 where
      e: "vulkan_event_children env c n (m_node_children_0 c kVulkanCallTopology ! n) [] = Inr c1"
      and r: "vulkan_event_loop env c1 rest = Inr c'"
      by (auto split: sum.splits)
    from Cons.IH [OF r] vulkan_event_children_frame [OF e] show ?thesis
      by simp
  qed
qed

lemma convert_topologies_Inr:
  "convert_topologies c ts = Inr c' \<Longrightarrow> distinct ts \<Longrightarrow>
   nodes_of c' = nodes_of c \<and>
   m_node_children_0 c' = m_node_children_0 c \<and> m_node_children_1 c' = m_node_children_1 c \<and>
   (\<forall>t \<in> set ts.
      build_topology (m_topology (m_command_hierarchy c) t) (m_node_children_0 c t)
        (m_node_children_1 c t) = Inr (m_topology (m_command_hierarchy c') t)) \<and>
   (\<forall>t. t \<notin> set ts \<longrightarrow>
      m_topology (m_command_hierarchy c') t = m_topology (m_command_hierarchy c) t)"
proof (induction ts arbitrary: c)
  case Nil
  then show ?case by simp
next
  case (Cons t rest)
  from Cons.prems(1) obtain T where
    b: "build_topology (m_topology (m_command_hierarchy c) t) (m_node_children_0 c t)
          (m_node_children_1 c t) = Inr T"
    by (auto split: sum.splits)
  define c1 where "c1 = c\<lparr>m_command_hierarchy := (m_command_hierarchy c)
                  \<lparr>m_topology := (m_topology (m_command_hierarchy c))(t := T)\<rparr>\<rparr>"
  from Cons.prems(1) b have r: "convert_topologies c1 rest = Inr c'"
    by (simp add: c1_def)
  from Cons.prems(2) have d: "distinct rest" and nt: "t \<notin> set rest"
    by simp_all
  note IH = Cons.IH [OF r d]
  have f: "nodes_of c1 = nodes_of c" "m_node_children_0 c1 = m_node_children_0 c"
    "m_node_children_1 c1 = m_node_children_1 c"
    "m_topology (m_command_hierarchy c1) = (m_topology (m_command_hierarchy c))(t := T)"
    by (simp_all add: c1_def)
  have "m_topology (m_command_hierarchy c') t = T"
    using IH nt f(4) by simp
  moreover have "build_topology (m_topology (m_command_hierarchy c) u) (m_node_children_0 c u)
        (m_node_children_1 c u) = Inr (m_topology (m_command_hierarchy c') u)"
    if "u \<in> set rest" for u
  proof -
    from that nt have ut: "u \<noteq> t" by auto
    from IH that have "build_topology (m_topology (m_command_hierarchy c1) u)
        (m_node_children_0 c1 u) (m_node_children_1 c1 u) =
        Inr (m_topology (m_command_hierarchy c') u)"
      by blast
    with ut show ?thesis by (simp add: f)
  qed
  ultimately show ?case
    using IH f b by auto
qed

lemma CreateTopologies_Inr:
  assumes "CreateTopologies env c = Inr c'"
  shows "nodes_of c' = nodes_of c"
    and "build_topology (m_topology (m_command_hierarchy c) t) (m_node_children_0 c' t)
          (m_node_children_1 c' t) = Inr (m_topology (m_command_hierarchy c') t)"
    and "t \<noteq> kVulkanCallTopology \<Longrightarrow> t \<noteq> kVulkanEventTopology \<Longrightarrow>
         m_node_children_0 c' t = m_node_children_0 c t \<and>
         m_node_children_1 c' t = m_node_children_1 c t"
    and "length (m_node_children_0 c' kVulkanCallTopology) =
           length (m_node_children_0 c kVulkanCallTopology)"
    and "length (m_node_children_1 c' kVulkanCallTopology) =
           length (m_node_children_1 c kVulkanCallTopology)"
    and "i < length (m_node_children_0 c kAllEventTopology) \<Longrightarrow>
         \<exists>filtered. FilterOut (nodes_of c) i = Inr filtered \<and>
           i < length (m_node_children_0 c kVulkanCallTopology) \<and>
           i < length (m_node_children_1 c kVulkanCallTopology) \<and>
           m_node_children_0 c' kVulkanCallTopology ! i =
             (if filtered then []
              else filter (\<lambda>ch. FilterOut (nodes_of c) ch = Inr False)
                     (m_node_children_0 c kAllEventTopology ! i)) \<and>
           m_node_children_1 c' kVulkanCallTopology ! i =
             (if filtered then [] else m_node_children_1 c kAllEventTopology ! i)"
    and "length (m_node_children_0 c kAllEventTopology) =
           length (m_node_children_1 c kAllEventTopology)"
proof -
  from assms obtain c1 c2 where
    l: "length (m_node_children_0 c kAllEventTopology) =
        length (m_node_children_1 c kAllEventTopology)"
    and v1: "vulkan_call_loop c [0..<length (m_node_children_0 c kAllEventTopology)] = Inr c1"
    and v2: "vulkan_event_loop env c1 [0..<length (m_node_children_0 c1 kVulkanCallTopology)] =
             Inr c2"
    and cv: "convert_topologies c2 all_topologies = Inr c'"
    by (auto simp: CreateTopologies_def bindE_Inr_iff split: if_splits)
  note V1 = vulkan_call_loop_all [OF v1 distinct_upt]
  note V2 = vulkan_event_loop_frame [OF v2]
  note CV = convert_topologies_Inr [OF cv all_topologies_distinct]
  have h: "m_command_hierarchy c2 = m_command_hierarchy c"
    using V1 V2 by simp
  show "nodes_of c' = nodes_of c"
    using CV h by simp
  show "build_topology (m_topology (m_command_hierarchy c) t) (m_node_children_0 c' t)
          (m_node_children_1 c' t) = Inr (m_topology (m_command_hierarchy c') t)"
    using CV h all_topologies_complete [of t] by simp
  have vc: "m_node_children_0 c' kVulkanCallTopology = m_node_children_0 c1 kVulkanCallTopology"
    "m_node_children_1 c' kVulkanCallTopology = m_node_children_1 c1 kVulkanCallTopology"
    using CV V2 by simp_all
  show "m_node_children_0 c' t = m_node_children_0 c t \<and>
         m_node_children_1 c' t = m_node_children_1 c t"
    if "t \<noteq> kVulkanCallTopology" "t \<noteq> kVulkanEventTopology"
    using CV V2 V1 that by simp
  show "length (m_node_children_0 c' kVulkanCallTopology) =
           length (m_node_children_0 c kVulkanCallTopology)"
    "length (m_node_children_1 c' kVulkanCallTopology) =
           length (m_node_children_1 c kVulkanCallTopology)"
    using V1 vc by simp_all
  show "\<exists>filtered. FilterOut (nodes_of c) i = Inr filtered \<and>
           i < length (m_node_children_0 c kVulkanCallTopology) \<and>
           i < length (m_node_children_1 c kVulkanCallTopology) \<and>
           m_node_children_0 c' kVulkanCallTopology ! i =
             (if filtered then []
              else filter (\<lambda>ch. FilterOut (nodes_of c) ch = Inr False)
                     (m_node_children_0 c kAllEventTopology ! i)) \<and>
           m_node_children_1 c' kVulkanCallTopology ! i =
             (if filtered then [] else m_node_children_1 c kAllEventTopology ! i)"
    if "i < length (m_node_children_0 c kAllEventTopology)"
    using V1 that unfolding vc by simp
  show "length (m_node_children_0 c kAllEventTopology) =
           length (m_node_children_1 c kAllEventTopology)"
    by (rule l)
qed

lemma build_topology_length:
  assumes "build_topology T0 c0 c1 = Inr T"
  shows "length (m_node_children T) = length c0"
    and "length (m_node_shared_children T) = length c0"
proof -
  from assms have f: "fill_topology (SetNumNodes T0 (length c0)) c0 c1 [0..<length c0] = Inr T"
    by (simp add: build_topology_def Let_def)
  from fill_topology_children [OF f]
  show "length (m_node_children T) = length c0" "length (m_node_shared_children T) = length c0"
    by (simp_all add: SetNumNodes_lengths)
qed

lemma build_topology_child:
  assumes b: "build_topology T0 c0 c1 = Inr T" and g: "GetChildNodeIndex T p k = Inr n"
  shows "p < length c0" and "k < length (c0 ! p)" and "n = c0 ! p ! k"
proof -
  from g have p: "p < length (m_node_children T)" and k: "k < snd (m_node_children T ! p)"
    by (auto simp: GetChildNodeIndex_def split: if_splits)
  from p show p0: "p < length c0"
    by (simp add: build_topology_length [OF b])
  note Q = build_topology_queries [OF b p0]
  from Q(3) k show k0: "k < length (c0 ! p)"
    by (simp add: GetNumChildren_def split: if_splits)
  from Q(5) [OF k0] g show "n = c0 ! p ! k"
    by simp
qed

lemma CreateTrees_ev_inv:
  assumes "CreateTrees env c capture_data flatten = Inr (c', ok)"
  shows "ev_inv (nodes_of c')"
proof -
  define c0 where "c0 = c\<lparr>m_capture_data_ptr := Some capture_data,
                 m_command_hierarchy := new_CommandHierarchy\<rparr>"
  from assms obtain c1 n c2 c4 ok4 where
    a: "AddNode c0 kRootNode '''' (AuxRaw 0) = Inr (c1, n)"
    and e: "engine_loop env c1 [0..<kEngineTypeCount env] = Inr c2"
    and s: "submit_loop env capture_data
              (c2\<lparr>m_num_events := 0, m_cur_submit_node_index := UINT64_MAX,
                    m_dcb_ib_stack := [], m_ccb_ib_stack := [],
                    m_flatten_chain_nodes := flatten\<rparr>)
              [0..<length (GetSubmitInfo capture_data)] = Inr (c4, ok4)"
    and t: "(\<not> ok4 \<and> c' = c4) \<or>
            (ok4 \<and> CreateTopologies env
               (c4\<lparr>m_command_hierarchy := (m_command_hierarchy c4)
                        \<lparr>m_metadata_version := GetVulkanMetadataVersion capture_data\<rparr>\<rparr>) = Inr c')"
    by (auto simp: CreateTrees_def Let_def c0_def bindE_Inr_iff split: if_splits)
  have "ev_inv (nodes_of c0)"
    by (simp add: c0_def ev_inv_def new_CommandHierarchy_def empty_Nodes_def)
  moreover have "store_ext c0 c1"
    by (rule grows_store_ext [OF AddNode_grows [OF a]])
  moreover have "store_ext c1 c2"
    by (rule grows_store_ext [OF engine_loop_grows [OF e]])
  moreover have "store_ext c2 c4"
    using submit_loop_store_ext [OF s] by simp
  ultimately have 4: "ev_inv (nodes_of c4)"
    by (meson ev_inv_store_ext)
  from t show ?thesis
  proof
    assume "\<not> ok4 \<and> c' = c4"
    with 4 show ?thesis by simp
  next
    assume "ok4 \<and> CreateTopologies env
               (c4\<lparr>m_command_hierarchy := (m_command_hierarchy c4)
                        \<lparr>m_metadata_version := GetVulkanMetadataVersion capture_data\<rparr>\<rparr>) = Inr c'"
    then have "nodes_of c' = nodes_of c4"
      using CreateTopologies_Inr(1) by fastforce
    with 4 show ?thesis by (simp add: ev_inv_def)
  qed
qed

text \<open>
  Claim C7. In the hierarchy that \<^verbatim>\<open>CreateTrees\<close> builds, the event node indices were appended
  in strictly increasing order, so the list is sorted; \<^verbatim>\<open>GetEventIndex\<close> returns \<open>k + 1\<close> for
  the \<open>k\<close>-th entry (0-based) of the list and 0 for every node index that is not in the list.
\<close>

theorem GetEventIndex_of_build:
  assumes "CreateTrees env c capture_data flatten = Inr (c', ok)"
  shows "sorted_wrt (<) (m_event_node_indices (nodes_of c')) \<and>
         (\<forall>k < length (m_event_node_indices (nodes_of c')).
            GetEventIndex (nodes_of c') (m_event_node_indices (nodes_of c') ! k) = k + 1) \<and>
         (\<forall>n. n \<notin> set (m_event_node_indices (nodes_of c')) \<longrightarrow>
            GetEventIndex (nodes_of c') n = 0)"
proof -
  from CreateTrees_ev_inv [OF assms]
  have s: "sorted_wrt (<) (m_event_node_indices (nodes_of c'))"
    by (simp add: ev_inv_def)
  from s GetEventIndex_member [OF s] GetEventIndex_other show ?thesis
    by blast
qed

lemma CreateTopologies_parent:
  assumes ct: "CreateTopologies env c = Inr c'"
    and sz: "length (m_node_children (m_topology (m_command_hierarchy c') t)) \<le> UINT64_MAX"
    and ch: "GetChildNodeIndex (m_topology (m_command_hierarchy c') t) p k = Inr n"
  shows "GetParentNodeIndex (m_topology (m_command_hierarchy c') t) n = Inr p \<and>
         p \<noteq> UINT64_MAX \<and>
         GetChildIndex (m_topology (m_command_hierarchy c') t) n = Inr k"
proof -
  note b = CreateTopologies_Inr(2) [OF ct, of t]
  note C = build_topology_child [OF b ch]
  from sz have n: "length (m_node_children_0 c' t) \<le> UINT64_MAX"
    by (simp add: build_topology_length(1) [OF b])
  from build_topology_parent [OF b n C(1,2)] C(3) show ?thesis
    by simp
qed

lemma CreateTopologies_VulkanCall:
  assumes ct: "CreateTopologies env c = Inr c'"
    and p: "p < length (m_node_children (m_topology (m_command_hierarchy c') kAllEventTopology))"
  shows "(\<forall>k ch. GetChildNodeIndex (m_topology (m_command_hierarchy c') kVulkanCallTopology) p k =
                   Inr ch \<longrightarrow>
            (\<exists>ty. GetNodeType (nodes_of c') ch = Inr ty \<and> ty \<noteq> kDrawDispatchDmaNode \<and>
                   ty \<noteq> kSyncNode \<and> ty \<noteq> kPostambleStateNode) \<and>
            GetMarkerNodeType (nodes_of c') ch \<noteq> Inr kBarrier) \<and>
         (FilterOut (nodes_of c') p = Inr False \<longrightarrow>
            GetNumSharedChildren (m_topology (m_command_hierarchy c') kVulkanCallTopology) p =
              GetNumSharedChildren (m_topology (m_command_hierarchy c') kAllEventTopology) p \<and>
            (\<forall>k. GetSharedChildNodeIndex
                   (m_topology (m_command_hierarchy c') kVulkanCallTopology) p k =
                 GetSharedChildNodeIndex
                   (m_topology (m_command_hierarchy c') kAllEventTopology) p k))"
proof -
  let ?VC = "m_topology (m_command_hierarchy c') kVulkanCallTopology"
  let ?AE = "m_topology (m_command_hierarchy c') kAllEventTopology"
  note R = CreateTopologies_Inr [OF ct]
  note bv = R(2) [of kVulkanCallTopology]
  note ba = R(2) [of kAllEventTopology]
  have ae: "m_node_children_0 c' kAllEventTopology = m_node_children_0 c kAllEventTopology"
    "m_node_children_1 c' kAllEventTopology = m_node_children_1 c kAllEventTopology"
    using R(3) [of kAllEventTopology] by simp_all
  from p have pa: "p < length (m_node_children_0 c kAllEventTopology)"
    by (simp add: build_topology_length(1) [OF ba] ae)
  from R(6) [OF pa] obtain filtered where
    f: "FilterOut (nodes_of c) p = Inr filtered"
    and pv: "p < length (m_node_children_0 c' kVulkanCallTopology)"
    and v0: "m_node_children_0 c' kVulkanCallTopology ! p =
             (if filtered then []
              else filter (\<lambda>ch. FilterOut (nodes_of c) ch = Inr False)
                     (m_node_children_0 c kAllEventTopology ! p))"
    and v1: "m_node_children_1 c' kVulkanCallTopology ! p =
             (if filtered then [] else m_node_children_1 c kAllEventTopology ! p)"
    by (auto simp: R(4))
  have prim: "(\<exists>ty. GetNodeType (nodes_of c') ch = Inr ty \<and> ty \<noteq> kDrawDispatchDmaNode \<and>
                   ty \<noteq> kSyncNode \<and> ty \<noteq> kPostambleStateNode) \<and>
            GetMarkerNodeType (nodes_of c') ch \<noteq> Inr kBarrier"
    if g: "GetChildNodeIndex ?VC p k = Inr ch" for k ch
  proof -
    note C = build_topology_child [OF bv g]
    from C(2,3) have "ch \<in> set (m_node_children_0 c' kVulkanCallTopology ! p)"
      by simp
    with v0 have fo: "FilterOut (nodes_of c') ch = Inr False"
      by (auto simp: R(1) split: if_splits)
    then obtain ty where ty: "GetNodeType (nodes_of c') ch = Inr ty"
      by (auto simp: FilterOut_def bindE_Inr_iff)
    with fo have "ty \<noteq> kDrawDispatchDmaNode \<and> ty \<noteq> kSyncNode \<and> ty \<noteq> kPostambleStateNode"
      by (auto simp: FilterOut_def split: if_splits)
    moreover have "GetMarkerNodeType (nodes_of c') ch \<noteq> Inr kBarrier"
    proof (cases "ty = kMarkerNode")
      case True
      with fo ty show ?thesis
        by (auto simp: FilterOut_def bindE_Inr_iff split: if_splits)
    next
      case False
      with ty show ?thesis
        by (auto simp: GetMarkerNodeType_def marker_node_of_def GetNodeType_def bindE_Inr_iff
            split: if_splits)
    qed
    ultimately show ?thesis using ty by blast
  qed
  have shared: "GetNumSharedChildren ?VC p = GetNumSharedChildren ?AE p \<and>
            (\<forall>k. GetSharedChildNodeIndex ?VC p k = GetSharedChildNodeIndex ?AE p k)"
    if nf: "FilterOut (nodes_of c') p = Inr False"
  proof -
    from nf f have "\<not> filtered" by (simp add: R(1))
    with v1 have eq: "m_node_children_1 c' kVulkanCallTopology ! p =
                      m_node_children_1 c' kAllEventTopology ! p"
      by (simp add: ae)
    note QV = build_topology_queries [OF bv pv]
    note QA = build_topology_queries [OF ba pa [folded ae(1)]]
    have num: "GetNumSharedChildren ?VC p = GetNumSharedChildren ?AE p"
      by (simp add: QV(4) QA(4) eq)
    have "GetSharedChildNodeIndex ?VC p k = GetSharedChildNodeIndex ?AE p k" for k
    proof (cases "k < length (m_node_children_1 c' kAllEventTopology ! p)")
      case True
      with QV(6) [of k] QA(6) [of k] eq show ?thesis by simp
    next
      case False
      with QV(4) QA(4) eq show ?thesis
        by (auto simp: GetSharedChildNodeIndex_def GetNumSharedChildren_def split: if_splits)
    qed
    with num show ?thesis by blast
  qed
  from prim shared show ?thesis
    by blast
qed

lemma CreateTrees_topologies:
  assumes "CreateTrees env c capture_data flatten = Inr (c', True)"
  shows "\<exists>c5. CreateTopologies env c5 = Inr c'"
  using assms
  by (auto simp: CreateTrees_def Let_def bindE_Inr_iff split: if_splits)

lemma fill_topology_parent_keep:
  "fill_topology T c0 c1 idxs = Inr T' \<Longrightarrow> \<forall>p \<in> set idxs. p \<noteq> UINT64_MAX \<Longrightarrow>
   \<forall>p \<in> set idxs. x \<notin> set (c0 ! p) \<Longrightarrow>
   m_node_parent T' ! x = m_node_parent T ! x"
proof (induction idxs arbitrary: T)
  case Nil
  then show ?case by simp
next
  case (Cons a rest)
  from Cons.prems(1) obtain T1 T2 where
    a1: "AddChildren T a (c0 ! a) = Inr T1" and
    a2: "AddSharedChildren T1 a (c1 ! a) = Inr T2" and
    rec: "fill_topology T2 c0 c1 rest = Inr T'"
    by (auto split: if_splits sum.splits)
  from Cons.prems(2) have am: "a \<noteq> UINT64_MAX" and rm: "\<forall>p \<in> set rest. p \<noteq> UINT64_MAX"
    by simp_all
  from Cons.prems(3) have xa: "x \<notin> set (c0 ! a)" and xr: "\<forall>p \<in> set rest. x \<notin> set (c0 ! p)"
    by simp_all
  from AddChildren_parents(2) [OF a1 am] xa have "m_node_parent T1 ! x = m_node_parent T ! x"
    by blast
  moreover have "m_node_parent T2 = m_node_parent T1"
    by (rule AddSharedChildren_Inr(6) [OF a2])
  ultimately show ?case
    using Cons.IH [OF rec rm xr] by simp
qed

lemma build_topology_no_parent:
  assumes b: "build_topology empty_Topology c0 c1 = Inr T" and sz: "length c0 \<le> UINT64_MAX"
    and n: "n < length c0" and no: "\<forall>p < length c0. n \<notin> set (c0 ! p)"
  shows "GetParentNodeIndex T n = Inr UINT64_MAX"
proof -
  let ?S = "SetNumNodes empty_Topology (length c0)"
  from b have f: "fill_topology ?S c0 c1 [0..<length c0] = Inr T"
    by (simp add: build_topology_def Let_def)
  have "\<forall>q \<in> set [0..<length c0]. q \<noteq> UINT64_MAX"
    using sz by auto
  moreover have "\<forall>p \<in> set [0..<length c0]. n \<notin> set (c0 ! p)"
    using no by simp
  ultimately have "m_node_parent T ! n = m_node_parent ?S ! n"
    by (rule fill_topology_parent_keep [OF f])
  also have "\<dots> = UINT64_MAX"
    using n by (simp add: SetNumNodes_def resize_def empty_Topology_def)
  finally have p: "m_node_parent T ! n = UINT64_MAX" .
  have "length (m_node_parent T) = length c0"
    using fill_topology_children [OF f] by (simp add: SetNumNodes_lengths)
  with p n show ?thesis
    by (simp add: GetParentNodeIndex_def)
qed

lemma CreateTrees_topologies_empty:
  assumes "CreateTrees env c capture_data flatten = Inr (c', True)"
  shows "\<exists>c5. CreateTopologies env c5 = Inr c' \<and>
              m_topology (m_command_hierarchy c5) = (\<lambda>t. empty_Topology)"
proof -
  define c0 where "c0 = c\<lparr>m_capture_data_ptr := Some capture_data,
                 m_command_hierarchy := new_CommandHierarchy\<rparr>"
  from assms obtain c1 n c2 c4 where
    a: "AddNode c0 kRootNode '''' (AuxRaw 0) = Inr (c1, n)"
    and e: "engine_loop env c1 [0..<kEngineTypeCount env] = Inr c2"
    and s: "submit_loop env capture_data
              (c2\<lparr>m_num_events := 0, m_cur_submit_node_index := UINT64_MAX,
                    m_dcb_ib_stack := [], m_ccb_ib_stack := [],
                    m_flatten_chain_nodes := flatten\<rparr>)
              [0..<length (GetSubmitInfo capture_data)] = Inr (c4, True)"
    and t: "CreateTopologies env
               (c4\<lparr>m_command_hierarchy := (m_command_hierarchy c4)
                        \<lparr>m_metadata_version := GetVulkanMetadataVersion capture_data\<rparr>\<rparr>) = Inr c'"
    by (auto simp: CreateTrees_def Let_def c0_def bindE_Inr_iff split: if_splits)
  have "store_ext c0 c1"
    by (rule grows_store_ext [OF AddNode_grows [OF a]])
  moreover have "store_ext c1 c2"
    by (rule grows_store_ext [OF engine_loop_grows [OF e]])
  moreover have "store_ext c2 c4"
    using submit_loop_store_ext [OF s] by simp
  ultimately have "store_ext c0 c4"
    by (meson store_ext_trans)
  then have "m_topology (m_command_hierarchy c4) = (\<lambda>t. empty_Topology)"
    by (simp add: store_ext_def c0_def new_CommandHierarchy_def)
  with t show ?thesis
    by (intro exI [of _ "c4\<lparr>m_command_hierarchy := (m_command_hierarchy c4)
                        \<lparr>m_metadata_version := GetVulkanMetadataVersion capture_data\<rparr>\<rparr>"]) simp
qed

lemma CreateTopologies_no_parent:
  assumes ct: "CreateTopologies env c = Inr c'"
    and em: "m_topology (m_command_hierarchy c) = (\<lambda>t. empty_Topology)"
    and sz: "length (m_node_children (m_topology (m_command_hierarchy c') t)) \<le> UINT64_MAX"
    and n: "n < length (m_node_children (m_topology (m_command_hierarchy c') t))"
    and no: "\<forall>p k. GetChildNodeIndex (m_topology (m_command_hierarchy c') t) p k \<noteq> Inr n"
  shows "GetParentNodeIndex (m_topology (m_command_hierarchy c') t) n = Inr UINT64_MAX"
proof -
  from CreateTopologies_Inr(2) [OF ct, of t] em
  have b: "build_topology empty_Topology (m_node_children_0 c' t) (m_node_children_1 c' t) =
           Inr (m_topology (m_command_hierarchy c') t)"
    by simp
  note l = build_topology_length(1) [OF b]
  have "n \<notin> set (m_node_children_0 c' t ! p)" if p: "p < length (m_node_children_0 c' t)" for p
  proof
    assume "n \<in> set (m_node_children_0 c' t ! p)"
    then obtain k where k: "k < length (m_node_children_0 c' t ! p)"
      "m_node_children_0 c' t ! p ! k = n"
      by (auto simp: in_set_conv_nth)
    from build_topology_queries(5) [OF b p k(1)] k(2) no show False
      by simp
  qed
  then have "\<forall>p < length (m_node_children_0 c' t). n \<notin> set (m_node_children_0 c' t ! p)"
    by blast
  from build_topology_no_parent [OF b sz [unfolded l] n [unfolded l] this] show ?thesis .
qed

lemma GetChildNodeIndex_in_list:
  "GetChildNodeIndex T p k = Inr n \<Longrightarrow> n \<in> set (m_children_list T)"
  by (auto simp: GetChildNodeIndex_def Let_def split: if_splits)

text \<open>
  Claim C2, as the code has it. In every topology \<open>T\<close> that \<^verbatim>\<open>CreateTrees\<close> builds, every
  node \<open>n\<close> that is the \<open>k\<close>-th primary child of a node \<open>p\<close> in \<open>T\<close> has the parent \<open>p\<close>,
  which is not the sentinel \<^verbatim>\<open>UINT64_MAX\<close>, and the child index \<open>k\<close>: the primary child of
  the parent of \<open>n\<close> at the child index of \<open>n\<close> is \<open>n\<close>. Every node that is no primary child
  of any node in \<open>T\<close> has the parent \<^verbatim>\<open>UINT64_MAX\<close> in \<open>T\<close>. (The node count fits the 64-bit
  index type.)
\<close>

theorem parent_of_primary_child:
  assumes tr: "CreateTrees env c capture_data flatten = Inr (c', True)"
    and sz: "length (m_node_children (m_topology (m_command_hierarchy c') t)) \<le> UINT64_MAX"
  shows "(\<forall>p k n. GetChildNodeIndex (m_topology (m_command_hierarchy c') t) p k = Inr n \<longrightarrow>
            GetParentNodeIndex (m_topology (m_command_hierarchy c') t) n = Inr p \<and>
            p \<noteq> UINT64_MAX \<and>
            GetChildIndex (m_topology (m_command_hierarchy c') t) n = Inr k) \<and>
         (\<forall>n < length (m_node_children (m_topology (m_command_hierarchy c') t)).
            (\<forall>p k. GetChildNodeIndex (m_topology (m_command_hierarchy c') t) p k \<noteq> Inr n) \<longrightarrow>
            GetParentNodeIndex (m_topology (m_command_hierarchy c') t) n = Inr UINT64_MAX)"
proof -
  from CreateTrees_topologies_empty [OF tr] obtain c5 where
    ct: "CreateTopologies env c5 = Inr c'"
    and em: "m_topology (m_command_hierarchy c5) = (\<lambda>t. empty_Topology)"
    by blast
  from CreateTopologies_parent [OF ct sz] CreateTopologies_no_parent [OF ct em sz]
  show ?thesis
    by blast
qed

text \<open>
  Claim C4. In the \<^verbatim>\<open>VulkanCall\<close> topology that the post-pass builds, no primary child of a
  node is of type \<^verbatim>\<open>DrawDispatchDma\<close>, \<^verbatim>\<open>Sync\<close> or \<^verbatim>\<open>PostambleState\<close>, and none is a
  Marker node of kind \<^verbatim>\<open>Barrier\<close>; every node that is not filtered out has the same shared
  children in \<^verbatim>\<open>VulkanCall\<close> as in \<^verbatim>\<open>AllEvent\<close>. The nodes are the indices below the node
  count of the \<^verbatim>\<open>AllEvent\<close> topology, over which the post-pass runs.
\<close>

theorem VulkanCall_children_filtered:
  assumes tr: "CreateTrees env c capture_data flatten = Inr (c', True)"
    and p: "p < length (m_node_children (m_topology (m_command_hierarchy c') kAllEventTopology))"
  shows "(\<forall>k ch. GetChildNodeIndex (m_topology (m_command_hierarchy c') kVulkanCallTopology) p k =
                   Inr ch \<longrightarrow>
            (\<exists>ty. GetNodeType (nodes_of c') ch = Inr ty \<and> ty \<noteq> kDrawDispatchDmaNode \<and>
                   ty \<noteq> kSyncNode \<and> ty \<noteq> kPostambleStateNode) \<and>
            GetMarkerNodeType (nodes_of c') ch \<noteq> Inr kBarrier) \<and>
         (FilterOut (nodes_of c') p = Inr False \<longrightarrow>
            GetNumSharedChildren (m_topology (m_command_hierarchy c') kVulkanCallTopology) p =
              GetNumSharedChildren (m_topology (m_command_hierarchy c') kAllEventTopology) p \<and>
            (\<forall>k. GetSharedChildNodeIndex
                   (m_topology (m_command_hierarchy c') kVulkanCallTopology) p k =
                 GetSharedChildNodeIndex
                   (m_topology (m_command_hierarchy c') kAllEventTopology) p k))"
proof -
  from CreateTrees_topologies [OF tr] obtain c5 where "CreateTopologies env c5 = Inr c'"
    by blast
  from CreateTopologies_VulkanCall [OF this p] show ?thesis .
qed

section \<open>The close of a submit\<close>

lemma AddSharedChildren_of_two:
  "AddSharedChildren_of c [a, b] p chs = Inr c' \<Longrightarrow> a \<noteq> b \<Longrightarrow>
   \<exists>f. c' = c\<lparr>m_node_children_1 := f\<rparr> \<and>
       f a = (m_node_children_1 c a)[p := m_node_children_1 c a ! p @ chs] \<and>
       f b = (m_node_children_1 c b)[p := m_node_children_1 c b ! p @ chs] \<and>
       (\<forall>t. length (f t) = length (m_node_children_1 c t))"
proof (induction chs arbitrary: c)
  case Nil
  then have "c' = c\<lparr>m_node_children_1 := m_node_children_1 c\<rparr>"
    by simp
  then show ?case
    by (intro exI [of _ "m_node_children_1 c"]) simp
next
  case (Cons ch rest)
  from Cons.prems(1) obtain ca c1 where
    sa: "AddSharedChild c a p ch = Inr ca" and sb: "AddSharedChild ca b p ch = Inr c1"
    and r: "AddSharedChildren_of c1 [a, b] p rest = Inr c'"
    by (auto simp: bindE_Inr_iff split: sum.splits)
  note A = AddSharedChild_Inr [OF sa]
  note B = AddSharedChild_Inr [OF sb]
  from Cons.IH [OF r Cons.prems(2)] obtain f where
    f: "c' = c1\<lparr>m_node_children_1 := f\<rparr>"
    "f a = (m_node_children_1 c1 a)[p := m_node_children_1 c1 a ! p @ rest]"
    "f b = (m_node_children_1 c1 b)[p := m_node_children_1 c1 b ! p @ rest]"
    "\<forall>t. length (f t) = length (m_node_children_1 c1 t)"
    by blast
  have ca1: "m_node_children_1 ca = (m_node_children_1 c)
      (a := (m_node_children_1 c a)[p := m_node_children_1 c a ! p @ [ch]])"
    by (subst A(2)) simp
  have c11: "m_node_children_1 c1 = (m_node_children_1 ca)
      (b := (m_node_children_1 ca b)[p := m_node_children_1 ca b ! p @ [ch]])"
    by (subst B(2)) simp
  have pb: "p < length (m_node_children_1 c b)"
    using B(1) Cons.prems(2) by (simp add: ca1)
  have e: "c' = c\<lparr>m_node_children_1 := f\<rparr>"
    by (subst f(1), subst B(2), subst A(2)) simp
  have fa: "f a = (m_node_children_1 c a)[p := m_node_children_1 c a ! p @ ch # rest]"
    using A(1) Cons.prems(2) by (simp add: f(2) c11 ca1)
  have fb: "f b = (m_node_children_1 c b)[p := m_node_children_1 c b ! p @ ch # rest]"
    using pb Cons.prems(2) by (simp add: f(3) c11 ca1)
  have fl: "\<forall>t. length (f t) = length (m_node_children_1 c t)"
    using f(4) by (simp add: c11 ca1)
  from e fa fb fl show ?case
    by blast
qed







text \<open>Where the events of a submit go: with no marker on the marker stack, the event node
  that \<^verbatim>\<open>OnPacket\<close> creates for a draw becomes the last primary child of the current submit
  node in the \<^verbatim>\<open>AllEvent\<close> view, and its index the last entry of the event index list.\<close>

lemma OnPacket_event_attaches:
  assumes r: "OnPacket_event env c opcode kNone True = Inr c'"
    and ms: "m_marker_stack c = []"
    and cur: "m_cur_submit_node_index c < length (m_node_type (nodes_of c))"
  shows "m_node_type (nodes_of c') = m_node_type (nodes_of c) @ [kDrawDispatchDmaNode]"
    and "m_event_node_indices (nodes_of c') =
           m_event_node_indices (nodes_of c) @ [length (m_node_type (nodes_of c))]"
    and "m_node_children_0 c' kAllEventTopology ! m_cur_submit_node_index c =
           m_node_children_0 c kAllEventTopology ! m_cur_submit_node_index c @
           [length (m_node_type (nodes_of c))]"
proof -
  define p0 where "p0 = m_cur_submit_node_index c"
  from r ms obtain s c2 n c5 c7 p1 c9 where
    an: "AddNode (c\<lparr>m_num_events := m_num_events c + 1\<rparr>) kDrawDispatchDmaNode s
           (EventNodeAux (m_num_events c)) = Inr (c2, n)"
    and sh: "AddSharedChildren_of
               ((AppendEventNodeIndex c2 n)\<lparr>m_cmd_begin_event_node_indices :=
                  m_cmd_begin_event_node_indices (AppendEventNodeIndex c2 n) @ [n]\<rparr>)
               [kAllEventTopology, kRgpTopology] n
               (m_packet_node_indices (m_packets
                 ((AppendEventNodeIndex c2 n)\<lparr>m_cmd_begin_event_node_indices :=
                    m_cmd_begin_event_node_indices (AppendEventNodeIndex c2 n) @ [n]\<rparr>))) = Inr c5"
    and a1: "AddChild (c5\<lparr>m_packets := Packets_Clear\<rparr>) kAllEventTopology p0 n = Inr c7"
    and a2: "AddChild (c7\<lparr>m_node_parent_info := (m_node_parent_info c7)
                     (kAllEventTopology :=
                        (m_node_parent_info c7 kAllEventTopology)(n \<mapsto> p0))\<rparr>)
               kRgpTopology p1 n = Inr c9"
    and c': "c' = c9\<lparr>m_node_parent_info := (m_node_parent_info c9)
                 (kRgpTopology := (m_node_parent_info c9 kRgpTopology)(n \<mapsto> p1))\<rparr>"
    by (auto simp: OnPacket_event_def Let_def bindE_Inr_iff p0_def split: if_splits)
  note A = AddNode_Inr [OF an]
  have n: "n = length (m_node_type (nodes_of c))"
    using A(1) by simp
  define c4 where "c4 = (AppendEventNodeIndex c2 n)\<lparr>m_cmd_begin_event_node_indices :=
                  m_cmd_begin_event_node_indices (AppendEventNodeIndex c2 n) @ [n]\<rparr>"
  have f4: "m_node_type (nodes_of c4) = m_node_type (nodes_of c) @ [kDrawDispatchDmaNode]"
    "m_event_node_indices (nodes_of c4) = m_event_node_indices (nodes_of c) @ [n]"
    "m_node_children_0 c4 = m_node_children_0 c2"
    using A(2,5) by (simp_all add: c4_def AppendEventNodeIndex_def set_nodes_def)
  from AddSharedChildren_of_two [OF sh [folded c4_def]] obtain f where
    c5: "c5 = c4\<lparr>m_node_children_1 := f\<rparr>"
    by auto
  note B = AddChild_Inr(2) [OF a1]
  note C = AddChild_Inr(2) [OF a2]
  have n7: "nodes_of c7 = nodes_of c4"
    by (subst B) (simp add: c5)
  have t7: "m_node_children_0 c7 = (m_node_children_0 c2)
      (kAllEventTopology := (m_node_children_0 c2 kAllEventTopology)
         [p0 := m_node_children_0 c2 kAllEventTopology ! p0 @ [n]])"
    by (subst B) (simp add: c5 f4)
  have n9: "nodes_of c9 = nodes_of c4"
    by (subst C) (simp add: n7)
  have t9: "m_node_children_0 c9 kAllEventTopology = m_node_children_0 c7 kAllEventTopology"
    by (subst C) simp
  show "m_node_type (nodes_of c') = m_node_type (nodes_of c) @ [kDrawDispatchDmaNode]"
    by (simp add: c' n9 f4)
  show "m_event_node_indices (nodes_of c') =
           m_event_node_indices (nodes_of c) @ [length (m_node_type (nodes_of c))]"
    by (simp add: c' n9 f4 n)
  have "length (m_node_children_0 c kAllEventTopology) = n"
    using A(8) [of kAllEventTopology] by simp
  with cur show "m_node_children_0 c' kAllEventTopology ! m_cur_submit_node_index c =
           m_node_children_0 c kAllEventTopology ! m_cur_submit_node_index c @
           [length (m_node_type (nodes_of c))]"
    by (simp add: c' t9 t7 A(6) nth_append p0_def [symmetric] n [symmetric])
qed


section \<open>The order of the IBs of a submit\<close>











section \<open>A build of the example capture\<close>

lemma field_last_wraps:
  "(UINT64_MAX + 1) mod 2 ^ 64 = 0" "Suc UINT64_MAX mod 18446744073709551616 = 0"
  by (simp_all add: UINT64_MAX_def)

lemmas builder_eval =
  AddNode_def Nodes_AddNode_def set_nodes_def all_topologies_def AddChild_def AddSharedChild_def
  kRootNodeIndex_def Let_def upt_rec

lemmas walk_eval =
  OnSubmitStart_def GetChildNodeIndex_pending_def kUniversal_def kCompute_def kDma_def
  OnIbStart_def IbNode_Inr OnPacket_def AddPacketNode_def PacketNode_def
  AppendPacketFieldNodes_def field_last_wraps four_topologies_def Packets_Add_def
  IsDrawDispatchEvent_def OnPacket_event_def GetEventString_def AppendEventNodeIndex_def
  OnIbEnd_def OnIbEnd_pop_def pop_chain_ibs.simps GetIbNodeType_def ib_node_of_def
  IbType_of_u8_def OnVulkanMarkerEnd_def OnSubmitEnd_def sort_submit_children_def
  add_postamble_state_def GetChildCount_def Packets_Clear_def

lemmas post_eval =
  CreateTopologies_def FilterOut_def GetNodeType_def GetMarkerNodeType_def marker_node_of_def
  IsVulkanNonEventNode_def IsVulkanEventNode_def EventNodeHelper_def
  build_topology_def SetNumNodes_def resize_def AddChildren_def AddSharedChildren_def

lemmas query_eval =
  GetNumChildren_def GetChildNodeIndex_def GetParentNodeIndex_def GetChildIndex_def
  GetNumSharedChildren_def GetSharedChildNodeIndex_def

lemma example_build:
  "\<exists>c'. CreateTrees example_env example_creator example_capture False = Inr (c', True) \<and>
     m_node_type (nodes_of c') =
       [kRootNode, kEngineNode, kEngineNode, kEngineNode, kSubmitNode, kIbNode, kPacketNode,
        kPacketNode, kDrawDispatchDmaNode, kPacketNode, kPostambleStateNode] \<and>
     m_event_node_indices (nodes_of c') = [8] \<and>
     length (m_node_children (m_topology (m_command_hierarchy c') kAllEventTopology)) = 11 \<and>
     GetNumChildren (m_topology (m_command_hierarchy c') kAllEventTopology) 4 = Inr 2 \<and>
     GetChildNodeIndex (m_topology (m_command_hierarchy c') kAllEventTopology) 4 0 = Inr 8 \<and>
     GetChildNodeIndex (m_topology (m_command_hierarchy c') kAllEventTopology) 4 1 = Inr 10 \<and>
     GetNumChildren (m_topology (m_command_hierarchy c') kVulkanCallTopology) 4 = Inr 0 \<and>
     GetNumSharedChildren (m_topology (m_command_hierarchy c') kVulkanCallTopology) 4 = Inr 3 \<and>
     GetParentNodeIndex (m_topology (m_command_hierarchy c') kSubmitTopology) 1 =
       Inr UINT64_MAX \<and>
     GetParentNodeIndex (m_topology (m_command_hierarchy c') kAllEventTopology) 6 =
       Inr UINT64_MAX \<and>
     m_children_list (m_topology (m_command_hierarchy c') kAllEventTopology) = [4, 8, 10]"
  by (simp add: CreateTrees_def example_env_def example_creator_def example_capture_def
      example_stream_def example_ib_def example_mem_def
      new_CommandHierarchy_def empty_Nodes_def empty_Topology_def
      builder_eval walk_eval post_eval query_eval)


theorem GetEventIndex_of_build_witness:
  "\<exists>c'. CreateTrees example_env example_creator example_capture False = Inr (c', True) \<and>
     m_event_node_indices (nodes_of c') = [8] \<and>
     GetEventIndex (nodes_of c') 8 = 1 \<and> GetEventIndex (nodes_of c') 7 = 0 \<and>
     sorted_wrt (<) (m_event_node_indices (nodes_of c')) \<and>
     (\<forall>k < length (m_event_node_indices (nodes_of c')).
        GetEventIndex (nodes_of c') (m_event_node_indices (nodes_of c') ! k) = k + 1) \<and>
     (\<forall>n. n \<notin> set (m_event_node_indices (nodes_of c')) \<longrightarrow>
        GetEventIndex (nodes_of c') n = 0)"
proof -
  from example_build obtain c' where
    r: "CreateTrees example_env example_creator example_capture False = Inr (c', True)"
    and e: "m_event_node_indices (nodes_of c') = [8]"
    by blast
  note T = GetEventIndex_of_build [OF r]
  from T e have "GetEventIndex (nodes_of c') ([8] ! 0) = 0 + 1"
    by (metis length_Cons list.size(3) zero_less_Suc)
  then have 8: "GetEventIndex (nodes_of c') 8 = 1"
    by simp
  from T e have 7: "GetEventIndex (nodes_of c') 7 = 0"
    by simp
  from r e 8 7 T show ?thesis
    by blast
qed

theorem parent_of_primary_child_witness:
  "\<exists>c'. CreateTrees example_env example_creator example_capture False = Inr (c', True) \<and>
     length (m_node_children (m_topology (m_command_hierarchy c') kAllEventTopology)) \<le>
       UINT64_MAX \<and>
     GetChildNodeIndex (m_topology (m_command_hierarchy c') kAllEventTopology) 4 0 = Inr 8 \<and>
     GetParentNodeIndex (m_topology (m_command_hierarchy c') kAllEventTopology) 8 = Inr 4 \<and>
     (4 :: nat) \<noteq> UINT64_MAX \<and>
     GetChildIndex (m_topology (m_command_hierarchy c') kAllEventTopology) 8 = Inr 0 \<and>
     6 < length (m_node_children (m_topology (m_command_hierarchy c') kAllEventTopology)) \<and>
     (\<forall>p k. GetChildNodeIndex (m_topology (m_command_hierarchy c') kAllEventTopology) p k \<noteq>
            Inr 6) \<and>
     GetParentNodeIndex (m_topology (m_command_hierarchy c') kAllEventTopology) 6 =
       Inr UINT64_MAX"
proof -
  from example_build obtain c' where
    r: "CreateTrees example_env example_creator example_capture False = Inr (c', True)"
    and l: "length (m_node_children (m_topology (m_command_hierarchy c') kAllEventTopology)) = 11"
    and g: "GetChildNodeIndex (m_topology (m_command_hierarchy c') kAllEventTopology) 4 0 = Inr 8"
    and cl: "m_children_list (m_topology (m_command_hierarchy c') kAllEventTopology) = [4, 8, 10]"
    by blast
  from l have sz: "length (m_node_children (m_topology (m_command_hierarchy c')
      kAllEventTopology)) \<le> UINT64_MAX"
    by (simp add: UINT64_MAX_def)
  from l have n: "6 < length (m_node_children (m_topology (m_command_hierarchy c')
      kAllEventTopology))"
    by simp
  have no: "\<forall>p k. GetChildNodeIndex (m_topology (m_command_hierarchy c') kAllEventTopology) p k \<noteq>
      Inr 6"
  proof (intro allI notI)
    fix p k
    assume "GetChildNodeIndex (m_topology (m_command_hierarchy c') kAllEventTopology) p k = Inr 6"
    from GetChildNodeIndex_in_list [OF this] cl show False
      by simp
  qed
  note T = parent_of_primary_child [OF r sz]
  from T g have 1: "GetParentNodeIndex (m_topology (m_command_hierarchy c') kAllEventTopology) 8 =
      Inr 4 \<and> (4 :: nat) \<noteq> UINT64_MAX \<and>
      GetChildIndex (m_topology (m_command_hierarchy c') kAllEventTopology) 8 = Inr 0"
    by blast
  from T n no have 2: "GetParentNodeIndex (m_topology (m_command_hierarchy c') kAllEventTopology) 6 =
      Inr UINT64_MAX"
    by blast
  from r sz g 1 n no 2 show ?thesis
    by blast
qed

text \<open>The claim as the specification states it fails for the engine nodes in the
  \<^verbatim>\<open>Submit\<close> topology and for the packet nodes, which are shared children only, in the
  \<^verbatim>\<open>AllEvent\<close> topology: node 1 and node 6 of the build of the example capture are not the
  root and have the parent \<^verbatim>\<open>UINT64_MAX\<close>.\<close>

theorem non_root_node_without_parent:
  "\<exists>c'. CreateTrees example_env example_creator example_capture False = Inr (c', True) \<and>
     (1 :: nat) \<noteq> kRootNodeIndex \<and> m_node_type (nodes_of c') ! 1 = kEngineNode \<and>
     GetParentNodeIndex (m_topology (m_command_hierarchy c') kSubmitTopology) 1 =
       Inr UINT64_MAX \<and>
     (6 :: nat) \<noteq> kRootNodeIndex \<and> m_node_type (nodes_of c') ! 6 = kPacketNode \<and>
     GetParentNodeIndex (m_topology (m_command_hierarchy c') kAllEventTopology) 6 =
       Inr UINT64_MAX"
proof -
  from example_build obtain c' where
    "CreateTrees example_env example_creator example_capture False = Inr (c', True)"
    "m_node_type (nodes_of c') =
       [kRootNode, kEngineNode, kEngineNode, kEngineNode, kSubmitNode, kIbNode, kPacketNode,
        kPacketNode, kDrawDispatchDmaNode, kPacketNode, kPostambleStateNode]"
    "GetParentNodeIndex (m_topology (m_command_hierarchy c') kSubmitTopology) 1 =
       Inr UINT64_MAX"
    "GetParentNodeIndex (m_topology (m_command_hierarchy c') kAllEventTopology) 6 =
       Inr UINT64_MAX"
    by blast
  then show ?thesis
    by (intro exI [of _ c']) (simp add: kRootNodeIndex_def)
qed

theorem VulkanCall_children_filtered_witness:
  "\<exists>c'. CreateTrees example_env example_creator example_capture False = Inr (c', True) \<and>
     4 < length (m_node_children (m_topology (m_command_hierarchy c') kAllEventTopology)) \<and>
     GetNumChildren (m_topology (m_command_hierarchy c') kAllEventTopology) 4 = Inr 2 \<and>
     GetNumChildren (m_topology (m_command_hierarchy c') kVulkanCallTopology) 4 = Inr 0 \<and>
     (\<forall>k ch. GetChildNodeIndex (m_topology (m_command_hierarchy c') kVulkanCallTopology) 4 k =
                   Inr ch \<longrightarrow>
            (\<exists>ty. GetNodeType (nodes_of c') ch = Inr ty \<and> ty \<noteq> kDrawDispatchDmaNode \<and>
                   ty \<noteq> kSyncNode \<and> ty \<noteq> kPostambleStateNode) \<and>
            GetMarkerNodeType (nodes_of c') ch \<noteq> Inr kBarrier) \<and>
     FilterOut (nodes_of c') 4 = Inr False \<and>
     GetNumSharedChildren (m_topology (m_command_hierarchy c') kVulkanCallTopology) 4 = Inr 3 \<and>
     GetNumSharedChildren (m_topology (m_command_hierarchy c') kVulkanCallTopology) 4 =
       GetNumSharedChildren (m_topology (m_command_hierarchy c') kAllEventTopology) 4 \<and>
     (\<forall>k. GetSharedChildNodeIndex
            (m_topology (m_command_hierarchy c') kVulkanCallTopology) 4 k =
          GetSharedChildNodeIndex
            (m_topology (m_command_hierarchy c') kAllEventTopology) 4 k)"
proof -
  from example_build obtain c' where
    r: "CreateTrees example_env example_creator example_capture False = Inr (c', True)"
    and t: "m_node_type (nodes_of c') =
       [kRootNode, kEngineNode, kEngineNode, kEngineNode, kSubmitNode, kIbNode, kPacketNode,
        kPacketNode, kDrawDispatchDmaNode, kPacketNode, kPostambleStateNode]"
    and l: "length (m_node_children (m_topology (m_command_hierarchy c') kAllEventTopology)) = 11"
    and n: "GetNumChildren (m_topology (m_command_hierarchy c') kAllEventTopology) 4 = Inr 2"
      "GetNumChildren (m_topology (m_command_hierarchy c') kVulkanCallTopology) 4 = Inr 0"
      "GetNumSharedChildren (m_topology (m_command_hierarchy c') kVulkanCallTopology) 4 = Inr 3"
    by blast
  from l have p: "4 < length (m_node_children (m_topology (m_command_hierarchy c')
      kAllEventTopology))"
    by simp
  from t have f: "FilterOut (nodes_of c') 4 = Inr False"
    by (simp add: FilterOut_def GetNodeType_def)
  from VulkanCall_children_filtered [OF r p] f r p n show ?thesis
    by blast
qed

text \<open>
  Claim C9. \<^verbatim>\<open>CreateTrees\<close> resets the hierarchy, the counters and the IB stacks, but not the
  pending child tables \<^verbatim>\<open>m_node_children\<close>. A second run on the builder that has built the
  example capture, over the same capture, the same catalog and the same flag, does not
  produce the same hierarchy: the assertion of \<^verbatim>\<open>AddNode\<close> on the size of the tables fails
  for the root node.
\<close>

theorem CreateTrees_rerun_fails:
  "\<exists>c1. CreateTrees example_env example_creator example_capture False = Inr (c1, True) \<and>
     CreateTrees example_env c1 example_capture False = Inl AssertionFailure"
  by (simp add: CreateTrees_def example_env_def example_creator_def example_capture_def
      example_stream_def example_ib_def example_mem_def
      new_CommandHierarchy_def empty_Nodes_def empty_Topology_def
      builder_eval walk_eval post_eval)










end
